theory Spec2Isabelle
  imports Main "HOL-Library.Multiset"
begin

section \<open>Slices, panics and machine integers\<close>

text \<open>
  A Go slice is modelled by the list of its elements. Indexing a slice outside
  \<open>0 .. len - 1\<close> panics; the panic is a value of the error type.  Go's \<open>int\<close> is
  taken to be 64 bits wide; it is modelled by \<open>int\<close> with the wrap-around written out
  where the source computes with it.
\<close>

datatype error = IndexOutOfRange

definition index :: "'a list \<Rightarrow> int \<Rightarrow> error + 'a" where
  "index s i = (if 0 \<le> i \<and> i < int (length s) then Inr (s ! nat i) else Inl IndexOutOfRange)"

definition maxInt :: int where
  "maxInt = 2 ^ 63 - 1"

text \<open>Two's complement wrap-around of a 64-bit signed result.\<close>

definition wrap :: "int \<Rightarrow> int" where
  "wrap x = (x + 2 ^ 63) mod 2 ^ 64 - 2 ^ 63"

text \<open>
  \<open>int(uint(i+j) >> 1)\<close>: the sum wraps in \<open>int\<close>, is reinterpreted as an unsigned
  64-bit number and shifted right by one.
\<close>

definition midpoint :: "int \<Rightarrow> int \<Rightarrow> int" where
  "midpoint i j = wrap (((wrap (i + j)) mod 2 ^ 64) div 2)"

section \<open>Bisection: \<open>search\<close>\<close>

text \<open>
  The loop of \<open>search\<close>.  The predicate \<open>f\<close> is a Go closure and may panic, so it
  returns \<open>error + bool\<close>.  The last argument is ghost state: the list of the indices
  at which \<open>f\<close> has been called so far.  The loop is not known to terminate for
  arbitrary \<open>i\<close> and \<open>j\<close>, hence the option type: \<open>None\<close> is non-termination.
\<close>

partial_function (option) search_loop ::
  "(int \<Rightarrow> error + bool) \<Rightarrow> int \<Rightarrow> int \<Rightarrow> int list \<Rightarrow> (int list \<times> (error + int)) option" where
  "search_loop f i j probes =
     (if i < j then
        (let h = midpoint i j in
         case f h of
           Inl e \<Rightarrow> Some (probes @ [h], Inl e)
         | Inr b \<Rightarrow>
             if \<not> b then search_loop f (wrap (h + 1)) j (probes @ [h])
             else search_loop f i h (probes @ [h]))
      else Some (probes, Inr i))"

definition search_probes :: "int \<Rightarrow> (int \<Rightarrow> error + bool) \<Rightarrow> (int list \<times> (error + int)) option" where
  "search_probes n f = search_loop f 0 n []"

definition search :: "int \<Rightarrow> (int \<Rightarrow> error + bool) \<Rightarrow> (error + int) option" where
  "search n f = map_option snd (search_probes n f)"

section \<open>Orderings\<close>

text \<open>
  The contract of a caller-supplied less-than function \<open>lt\<close> (\<open>less\<close> in the source): a strict weak ordering, that is irreflexive,
  transitive, and with a transitive incomparability relation.
\<close>

definition strict_weak_order :: "('a \<Rightarrow> 'a \<Rightarrow> bool) \<Rightarrow> bool" where
  "strict_weak_order lt \<longleftrightarrow>
     (\<forall>a. \<not> lt a a) \<and>
     (\<forall>a b c. lt a b \<and> lt b c \<longrightarrow> lt a c) \<and>
     (\<forall>a b c. \<not> lt a b \<and> \<not> lt b a \<and> \<not> lt b c \<and> \<not> lt c b \<longrightarrow> \<not> lt a c \<and> \<not> lt c a)"

text \<open>Two elements are equivalent under \<open>lt\<close> when neither is less than the other.\<close>

definition equivalent :: "('a \<Rightarrow> 'a \<Rightarrow> bool) \<Rightarrow> 'a \<Rightarrow> 'a \<Rightarrow> bool" where
  "equivalent lt a b \<longleftrightarrow> \<not> lt a b \<and> \<not> lt b a"

text \<open>A slice is ascending under \<open>lt\<close> when it has no inversion.\<close>

definition ascending :: "('a \<Rightarrow> 'a \<Rightarrow> bool) \<Rightarrow> 'a list \<Rightarrow> bool" where
  "ascending lt xs = sorted_wrt (\<lambda>a b. \<not> lt b a) xs"

text \<open>
  The contract of a three-way comparison \<open>cmp\<close>: negative, zero or positive as the first
  argument is below, equivalent to or above the second; "below" is a strict weak ordering.
\<close>

definition three_way :: "('a \<Rightarrow> 'a \<Rightarrow> int) \<Rightarrow> bool" where
  "three_way c \<longleftrightarrow> strict_weak_order (\<lambda>a b. c a b < 0) \<and> (\<forall>a b. 0 < c a b \<longleftrightarrow> c b a < 0)"

section \<open>Ordered element types\<close>

text \<open>
  A type parameter constrained by \<open>rules.Ordered\<close> is an integer, a floating-point or
  a string type, and the generic code compares its values with the operators of that
  type.  A generic function is therefore modelled with the six operators of its type
  argument as a parameter.
\<close>

record 'a ordered =
  op_lt :: "'a \<Rightarrow> 'a \<Rightarrow> bool"
  op_le :: "'a \<Rightarrow> 'a \<Rightarrow> bool"
  op_gt :: "'a \<Rightarrow> 'a \<Rightarrow> bool"
  op_ge :: "'a \<Rightarrow> 'a \<Rightarrow> bool"
  op_eq :: "'a \<Rightarrow> 'a \<Rightarrow> bool"
  op_ne :: "'a \<Rightarrow> 'a \<Rightarrow> bool"

text \<open>The operators of an integer or string type: those of a linear order.\<close>

definition native :: "'a::linorder ordered" where
  "native = \<lparr>op_lt = (<), op_le = (\<le>), op_gt = (>), op_ge = (\<ge>), op_eq = (=), op_ne = (\<noteq>)\<rparr>"

text \<open>
  A floating-point value is NaN or a number; the numbers (the infinities among them)
  are compared in their numeric order, which is all the code uses of them, and every
  comparison with NaN is false, except \<open>!=\<close>, which is true.
\<close>

datatype 'v float64 = NaN | Num 'v

fun float_lt :: "'v::linorder float64 \<Rightarrow> 'v float64 \<Rightarrow> bool" where
  "float_lt (Num x) (Num y) = (x < y)"
| "float_lt _ _ = False"

fun float_le :: "'v::linorder float64 \<Rightarrow> 'v float64 \<Rightarrow> bool" where
  "float_le (Num x) (Num y) = (x \<le> y)"
| "float_le _ _ = False"

fun float_eq :: "'v::linorder float64 \<Rightarrow> 'v float64 \<Rightarrow> bool" where
  "float_eq (Num x) (Num y) = (x = y)"
| "float_eq _ _ = False"

definition float64_ops :: "'v::linorder float64 ordered" where
  "float64_ops = \<lparr>op_lt = float_lt, op_le = float_le, op_gt = (\<lambda>a b. float_lt b a),
     op_ge = (\<lambda>a b. float_le b a), op_eq = float_eq, op_ne = (\<lambda>a b. \<not> float_eq a b)\<rparr>"

text \<open>
  The values of a set are totally ordered by the operators when their \<open><\<close> is a strict
  weak ordering of these values and the other five operators are the ones derived from
  it.  This holds of all values of an integer or string type, and of the floating-point
  numbers other than NaN.
\<close>

definition strict_weak_order_on :: "('a \<Rightarrow> 'a \<Rightarrow> bool) \<Rightarrow> 'a set \<Rightarrow> bool" where
  "strict_weak_order_on lt A \<longleftrightarrow>
     (\<forall>a\<in>A. \<not> lt a a) \<and>
     (\<forall>a\<in>A. \<forall>b\<in>A. \<forall>c\<in>A. lt a b \<and> lt b c \<longrightarrow> lt a c) \<and>
     (\<forall>a\<in>A. \<forall>b\<in>A. \<forall>c\<in>A.
         \<not> lt a b \<and> \<not> lt b a \<and> \<not> lt b c \<and> \<not> lt c b \<longrightarrow> \<not> lt a c \<and> \<not> lt c a)"

definition totally_ordered :: "'a ordered \<Rightarrow> 'a set \<Rightarrow> bool" where
  "totally_ordered ops A \<longleftrightarrow>
     strict_weak_order_on (op_lt ops) A \<and>
     (\<forall>a\<in>A. \<forall>b\<in>A.
         (op_le ops a b \<longleftrightarrow> \<not> op_lt ops b a) \<and>
         (op_gt ops a b \<longleftrightarrow> op_lt ops b a) \<and>
         (op_ge ops a b \<longleftrightarrow> \<not> op_lt ops a b) \<and>
         (op_eq ops a b \<longleftrightarrow> \<not> op_lt ops a b \<and> \<not> op_lt ops b a) \<and>
         (op_ne ops a b \<longleftrightarrow> op_lt ops a b \<or> op_lt ops b a))"

text \<open>The helper \<open>cmp\<close> of the package, the three-way comparison of an ordered type.\<close>

definition cmp :: "'a ordered \<Rightarrow> 'a \<Rightarrow> 'a \<Rightarrow> int" where
  "cmp ops v1 v2 = (if op_lt ops v1 v2 then - 1 else if op_gt ops v1 v2 then 1 else 0)"

section \<open>\<open>IsSorted\<close> and \<open>IsSortedFunc\<close>\<close>

text \<open>
  The loops run \<open>i\<close> from \<open>len(x) - 1\<close> down to 1.  \<open>IsSorted\<close> compares with the
  operator \<open><\<close> of its element type.
\<close>

function IsSorted_loop :: "'a ordered \<Rightarrow> 'a list \<Rightarrow> int \<Rightarrow> error + bool" where
  "IsSorted_loop ops x i =
     (if i > 0 then
        (case index x i of
           Inl e \<Rightarrow> Inl e
         | Inr a \<Rightarrow>
             (case index x (i - 1) of
                Inl e \<Rightarrow> Inl e
              | Inr b \<Rightarrow> if op_lt ops a b then Inr False else IsSorted_loop ops x (i - 1)))
      else Inr True)"
  by pat_completeness auto
termination
  by (relation "measure (\<lambda>(ops, x, i). nat i)") auto

declare IsSorted_loop.simps [simp del]

definition IsSorted :: "'a ordered \<Rightarrow> 'a list \<Rightarrow> error + bool" where
  "IsSorted ops x = IsSorted_loop ops x (int (length x) - 1)"

function IsSortedFunc_loop :: "('a \<Rightarrow> 'a \<Rightarrow> bool) \<Rightarrow> 'a list \<Rightarrow> int \<Rightarrow> error + bool" where
  "IsSortedFunc_loop lt x i =
     (if i > 0 then
        (case index x i of
           Inl e \<Rightarrow> Inl e
         | Inr a \<Rightarrow>
             (case index x (i - 1) of
                Inl e \<Rightarrow> Inl e
              | Inr b \<Rightarrow> if lt a b then Inr False else IsSortedFunc_loop lt x (i - 1)))
      else Inr True)"
  by pat_completeness auto
termination
  by (relation "measure (\<lambda>(lt, x, i). nat i)") auto

declare IsSortedFunc_loop.simps [simp del]

definition IsSortedFunc :: "('a \<Rightarrow> 'a \<Rightarrow> bool) \<Rightarrow> 'a list \<Rightarrow> error + bool" where
  "IsSortedFunc lt x = IsSortedFunc_loop lt x (int (length x) - 1)"

section \<open>\<open>BinarySearch\<close> and \<open>BinarySearchFunc\<close>\<close>

text \<open>
  The closure handed to \<open>search\<close> reads \<open>space[i]\<close> and so panics outside the slice.
  \<open>BinarySearch\<close> compares with the operators \<open>>=\<close> and \<open>!=\<close> of its element type.
  The result is \<open>(pos, found)\<close>; \<open>||\<close> evaluates its second operand only when the
  first is false.
\<close>

definition BinarySearch :: "'a ordered \<Rightarrow> 'a \<Rightarrow> 'a list \<Rightarrow> (error + int \<times> bool) option" where
  "BinarySearch ops target space =
     (case search (int (length space))
             (\<lambda>i. case index space i of Inl e \<Rightarrow> Inl e | Inr v \<Rightarrow> Inr (op_ge ops v target)) of
        None \<Rightarrow> None
      | Some (Inl e) \<Rightarrow> Some (Inl e)
      | Some (Inr pos) \<Rightarrow>
          if pos \<ge> int (length space) then Some (Inr (pos, False))
          else (case index space pos of
                  Inl e \<Rightarrow> Some (Inl e)
                | Inr v \<Rightarrow> if op_ne ops v target then Some (Inr (pos, False)) else Some (Inr (pos, True))))"

definition BinarySearchFunc ::
  "('a \<Rightarrow> 'a \<Rightarrow> int) \<Rightarrow> 'a \<Rightarrow> 'a list \<Rightarrow> (error + int \<times> bool) option" where
  "BinarySearchFunc c target space =
     (case search (int (length space))
             (\<lambda>i. case index space i of Inl e \<Rightarrow> Inl e | Inr v \<Rightarrow> Inr (c v target \<ge> 0)) of
        None \<Rightarrow> None
      | Some (Inl e) \<Rightarrow> Some (Inl e)
      | Some (Inr pos) \<Rightarrow>
          if pos \<ge> int (length space) then Some (Inr (pos, False))
          else (case index space pos of
                  Inl e \<Rightarrow> Some (Inl e)
                | Inr v \<Rightarrow> if c v target \<noteq> 0 then Some (Inr (pos, False)) else Some (Inr (pos, True))))"

section \<open>The \<open>Key\<close> adapter\<close>








section \<open>The sorting engine\<close>

text \<open>
  The functions \<open>pdqsortOrdered\<close>, \<open>pdqsortLessFunc\<close> and \<open>stableLessFunc\<close>, which
  \<open>Sort\<close>, \<open>SortFunc\<close> and \<open>SortStableFunc\<close> call, are not among the source files.  They
  are modelled from the design of the specification (its sections 4.2 to 4.6), on the
  sequence of the elements of the range they sort: a rearrangement in place is modelled
  by the sequence it leaves.
\<close>

text \<open>The hint of the pivot selection, as declared in \<open>sort.go\<close>.\<close>

datatype sortedHint = unknownHint | increasingHint | decreasingHint

text \<open>
  Modelled from the spec: the bisection of section 4.2 used by the binary insertion sort
  and the rotation merge, on natural-number indices: start with \<open>i = 0\<close>, \<open>j = n\<close>; while
  \<open>i < j\<close>, take \<open>h = (i + j) / 2\<close>; if the predicate fails at \<open>h\<close> continue with
  \<open>i = h + 1\<close>, else with \<open>j = h\<close>; return \<open>i\<close>.
\<close>

function bisect :: "(nat \<Rightarrow> bool) \<Rightarrow> nat \<Rightarrow> nat \<Rightarrow> nat" where
  "bisect p i j =
     (if i < j then
        (let h = (i + j) div 2 in
         if \<not> p h then bisect p (h + 1) j else bisect p i h)
      else i)"
  by pat_completeness auto
termination
  by (relation "measure (\<lambda>(p, i, j). j - i)") auto

declare bisect.simps [simp del]

text \<open>
  Modelled from the spec: the small-range fallback of section 4.4, binary insertion sort
  (absent from the sources): each element is inserted into the sorted prefix at the
  position found by bisection, behind the elements that are not greater, and the rest
  is shifted.
\<close>

definition insertAt :: "'a list \<Rightarrow> nat \<Rightarrow> 'a \<Rightarrow> 'a list" where
  "insertAt ys pos x = take pos ys @ x # drop pos ys"

text \<open>Modelled from the spec: the insertion of one element into the sorted prefix behind the
  elements that are not greater, at the position found by bisection (section 4.4).\<close>

definition binaryInsert :: "('a \<Rightarrow> 'a \<Rightarrow> bool) \<Rightarrow> 'a list \<Rightarrow> 'a \<Rightarrow> 'a list" where
  "binaryInsert lt ys x = insertAt ys (bisect (\<lambda>i. lt x (ys ! i)) 0 (length ys)) x"

text \<open>Modelled from the spec: binary insertion sort inserts the elements one after the other
  (section 4.4).\<close>

definition insertionSort :: "('a \<Rightarrow> 'a \<Rightarrow> bool) \<Rightarrow> 'a list \<Rightarrow> 'a list" where
  "insertionSort lt xs = foldl (binaryInsert lt) [] xs"

text \<open>
  Modelled from the spec: the heapsort fallback of section 4.4 (absent from the
  sources): heapify the range, then repeatedly extract the maximum.  The heap is a
  binary tree whose root is not less than any other element; the extracted maxima
  fill the result from its end.
\<close>

datatype 'a maxheap = Empty | Node "'a maxheap" 'a "'a maxheap"

text \<open>Modelled from the spec: two heaps are joined under the greater of their roots.\<close>

fun meld :: "('a \<Rightarrow> 'a \<Rightarrow> bool) \<Rightarrow> 'a maxheap \<Rightarrow> 'a maxheap \<Rightarrow> 'a maxheap" where
  "meld lt Empty h = h"
| "meld lt h Empty = h"
| "meld lt (Node l1 a1 r1) (Node l2 a2 r2) =
     (if lt a1 a2 then Node (meld lt (Node l1 a1 r1) r2) a2 l2
      else Node (meld lt r1 (Node l2 a2 r2)) a1 l1)"

text \<open>Modelled from the spec: "heapify the sub-range" (section 4.4).\<close>

definition heapify :: "('a \<Rightarrow> 'a \<Rightarrow> bool) \<Rightarrow> 'a list \<Rightarrow> 'a maxheap" where
  "heapify lt xs = foldr (\<lambda>x h. meld lt (Node Empty x Empty) h) xs Empty"

text \<open>The number of elements of a heap.\<close>

fun heapSize :: "'a maxheap \<Rightarrow> nat" where
  "heapSize Empty = 0"
| "heapSize (Node l a r) = Suc (heapSize l + heapSize r)"

text \<open>Modelled from the spec: "repeatedly extract-max" (section 4.4); each maximum goes in front
  of the greater ones extracted before it.\<close>

function extractAll :: "('a \<Rightarrow> 'a \<Rightarrow> bool) \<Rightarrow> 'a maxheap \<Rightarrow> 'a list \<Rightarrow> 'a list" where
  "extractAll lt Empty acc = acc"
| "extractAll lt (Node l a r) acc = extractAll lt (meld lt l r) (a # acc)"
  by pat_completeness auto
termination
proof (relation "measure (\<lambda>(lt, h, acc). heapSize h)")
  show "wf (measure (\<lambda>(lt, h, acc). heapSize h))" by simp
next
  fix lt :: "'a \<Rightarrow> 'a \<Rightarrow> bool" and l r :: "'a maxheap" and a :: 'a and acc :: "'a list"
  have "heapSize (meld lt h1 h2) = heapSize h1 + heapSize h2" for h1 h2
    by (induction lt h1 h2 rule: meld.induct) simp_all
  then show "((lt, meld lt l r, a # acc), lt, Node l a r, acc) \<in> measure (\<lambda>(lt, h, acc). heapSize h)"
    by simp
qed

text \<open>Modelled from the spec: the heapsort fallback (section 4.4).\<close>

definition heapSort :: "('a \<Rightarrow> 'a \<Rightarrow> bool) \<Rightarrow> 'a list \<Rightarrow> 'a list" where
  "heapSort lt xs = extractAll lt (heapify lt xs) []"

text \<open>
  Modelled from the spec: the scan of section 4.3 for an existing order (absent from the
  sources).  The range is increasing when no element is less than its predecessor, and
  decreasing (reverse-sorted) when no element is greater than its predecessor.
\<close>

definition scanHint :: "('a \<Rightarrow> 'a \<Rightarrow> bool) \<Rightarrow> 'a list \<Rightarrow> sortedHint" where
  "scanHint lt xs =
     (if successively (\<lambda>a b. \<not> lt b a) xs then increasingHint
      else if successively (\<lambda>a b. \<not> lt a b) xs then decreasingHint
      else unknownHint)"

text \<open>
  Modelled from the spec: the pivot selection of section 4.3 (absent from the sources):
  the median of three medians of three, sampled at the start, the middle and the end of
  the range and around its two quarter points.  The result is an index of the range.
\<close>

definition median3 :: "('a \<Rightarrow> 'a \<Rightarrow> bool) \<Rightarrow> 'a list \<Rightarrow> nat \<Rightarrow> nat \<Rightarrow> nat \<Rightarrow> nat" where
  "median3 lt xs a b c =
     (if lt (xs ! a) (xs ! b) then
        (if lt (xs ! b) (xs ! c) then b else if lt (xs ! a) (xs ! c) then c else a)
      else
        (if lt (xs ! a) (xs ! c) then a else if lt (xs ! b) (xs ! c) then c else b))"

text \<open>Modelled from the spec: the ninther, the median of the three medians (section 4.3).\<close>

definition choosePivot :: "('a \<Rightarrow> 'a \<Rightarrow> bool) \<Rightarrow> 'a list \<Rightarrow> nat" where
  "choosePivot lt xs =
     (let n = length xs; q = n div 4 in
      median3 lt xs
        (median3 lt xs 0 (n div 2) (n - 1))
        (median3 lt xs (q - 1) q (q + 1))
        (median3 lt xs (3 * q - 1) (3 * q) (3 * q + 1)))"

text \<open>
  Modelled from the spec: the constants of the adaptive sort.  The specification names
  12 as the small-range threshold and one eighth as the fraction below which a partition
  is unbalanced; it gives no number for the size of the cluster of elements equal to the
  pivot that triggers the three-way partition, taken here to be half of the range.
\<close>

definition smallRange :: nat where
  "smallRange = 12"

text \<open>Modelled from the spec: a partition is unbalanced when its smaller side is below one
  eighth of the range (section 3, BadnessBudget).\<close>

definition unbalanced :: "nat \<Rightarrow> nat \<Rightarrow> nat \<Rightarrow> bool" where
  "unbalanced leftLen rightLen n \<longleftrightarrow> min leftLen rightLen < n div 8"

text \<open>Modelled from the spec: the elements equal to the pivot are many (section 4.4); the
  specification gives no number, half of the range is taken.\<close>

definition manyEqual :: "nat \<Rightarrow> nat \<Rightarrow> bool" where
  "manyEqual clusterLen n \<longleftrightarrow> n \<le> 2 * clusterLen"

text \<open>
  Modelled from the spec: the adaptive sort of section 4.5 with the partitions of
  section 4.4 (\<open>pdqsortLessFunc\<close>, absent from the sources).
  \<^enum> A range of at most \<open>smallRange\<close> elements is sorted by binary insertion.
  \<^enum> With the badness budget \<open>limit\<close> at zero the range is sorted by heapsort.
  \<^enum> A range found increasing is left as it is; a range found decreasing is reversed.
  \<^enum> Otherwise a pivot is chosen and the range is partitioned around it: the two-way
    partition puts the elements not greater than the pivot to the left and the greater
    ones to the right; when the elements equal to the pivot are many, the three-way
    partition splits the left side into the smaller elements and those equal to the
    pivot.  An unbalanced partition decrements the budget.
  \<^enum> Both sides are sorted recursively.

  The specification does not say in which order a partition leaves the elements of one
  side; here each side keeps the order the elements have in the range.
\<close>

function pdq :: "('a \<Rightarrow> 'a \<Rightarrow> bool) \<Rightarrow> nat \<Rightarrow> 'a list \<Rightarrow> 'a list" where
  "pdq lt limit xs =
     (if length xs \<le> smallRange then insertionSort lt xs
      else if limit = 0 then heapSort lt xs
      else
        (case scanHint lt xs of
           increasingHint \<Rightarrow> xs
         | decreasingHint \<Rightarrow> rev xs
         | unknownHint \<Rightarrow>
             (let p = choosePivot lt xs;
                  pivot = xs ! p;
                  rest = take p xs @ drop (Suc p) xs;
                  left = filter (\<lambda>x. \<not> lt pivot x) rest;
                  right = filter (\<lambda>x. lt pivot x) rest;
                  equal = filter (\<lambda>x. \<not> lt x pivot) left;
                  limit' = (if unbalanced (length left) (length right) (length xs)
                            then limit - 1 else limit)
              in if manyEqual (length equal) (length xs)
                 then pdq lt limit' (filter (\<lambda>x. lt x pivot) left) @ equal @ pivot # pdq lt limit' right
                 else pdq lt limit' left @ pivot # pdq lt limit' right)))"
  by pat_completeness auto
termination
proof (relation "measure (\<lambda>(lt, limit, xs). length xs)")
  show "wf (measure (\<lambda>(lt, limit, xs). length xs))" by simp
next
  have med: "median3 lt xs a b c = a \<or> median3 lt xs a b c = b \<or> median3 lt xs a b c = c"
    for lt :: "'a \<Rightarrow> 'a \<Rightarrow> bool" and xs a b c
    by (simp add: median3_def)
  have piv: "choosePivot lt xs < length xs" if "\<not> length xs \<le> smallRange"
    for lt :: "'a \<Rightarrow> 'a \<Rightarrow> bool" and xs
  proof -
    define n where "n = length xs"
    define q where "q = n div 4"
    have n: "12 < n" using that by (simp add: smallRange_def n_def)
    have m1: "median3 lt xs 0 (n div 2) (n - 1) < n"
      using med[of lt xs 0 "n div 2" "n - 1"] n by auto
    have m2: "median3 lt xs (q - 1) q (q + 1) < n"
      using med[of lt xs "q - 1" q "q + 1"] n by (auto simp: q_def)
    have m3: "median3 lt xs (3 * q - 1) (3 * q) (3 * q + 1) < n"
      using med[of lt xs "3 * q - 1" "3 * q" "3 * q + 1"] n by (auto simp: q_def)
    have "choosePivot lt xs = median3 lt xs (median3 lt xs 0 (n div 2) (n - 1))
            (median3 lt xs (q - 1) q (q + 1)) (median3 lt xs (3 * q - 1) (3 * q) (3 * q + 1))"
      by (simp add: choosePivot_def Let_def n_def q_def)
    then show ?thesis
      using med[of lt xs "median3 lt xs 0 (n div 2) (n - 1)" "median3 lt xs (q - 1) q (q + 1)"
                  "median3 lt xs (3 * q - 1) (3 * q) (3 * q + 1)"] m1 m2 m3
      by (auto simp: n_def)
  qed
  have shrink: "length (filter P (take p xs @ drop (Suc p) xs)) < length xs" if "p < length xs"
    for P :: "'a \<Rightarrow> bool" and p xs
  proof -
    have "length (filter P (take p xs @ drop (Suc p) xs)) \<le> length (take p xs @ drop (Suc p) xs)"
      by (rule length_filter_le)
    also have "\<dots> < length xs" using that by simp
    finally show ?thesis .
  qed
  have shrink2: "length (filter Q (filter P (take p xs @ drop (Suc p) xs))) < length xs"
    if "p < length xs" for P Q :: "'a \<Rightarrow> bool" and p xs
    using le_less_trans[OF length_filter_le shrink[OF that]] .
  fix lt :: "'a \<Rightarrow> 'a \<Rightarrow> bool" and limit :: nat and xs :: "'a list"
    and p pivot rest left right equal limit'
  assume h: "\<not> length xs \<le> smallRange" "p = choosePivot lt xs" "pivot = xs ! p"
    "rest = take p xs @ drop (Suc p) xs" "left = filter (\<lambda>x. \<not> lt pivot x) rest"
    "right = filter (lt pivot) rest"
  have p: "p < length xs" using piv[OF h(1)] h(2) by simp
  show "((lt, limit', filter (\<lambda>x. lt x pivot) left), lt, limit, xs) \<in> measure (\<lambda>(lt, limit, xs). length xs)"
    using shrink2[OF p] h by simp
  show "((lt, limit', right), lt, limit, xs) \<in> measure (\<lambda>(lt, limit, xs). length xs)"
    using shrink[OF p] h by simp
  show "((lt, limit', left), lt, limit, xs) \<in> measure (\<lambda>(lt, limit, xs). length xs)"
    using shrink[OF p] h by simp
  show "((lt, limit', right), lt, limit, xs) \<in> measure (\<lambda>(lt, limit, xs). length xs)"
    using shrink[OF p] h by simp
qed

declare pdq.simps [simp del]

text \<open>
  Modelled from the spec: \<open>pdqsortLessFunc(data, a, b, limit, less)\<close> (absent from the
  sources) sorts the range \<open>data[a:b]\<close> and touches nothing outside it;
  \<open>pdqsortOrdered\<close> (absent as well) is the same sort with the operator \<open><\<close> of the
  element type.
\<close>

definition pdqsortLessFunc ::
  "'a list \<Rightarrow> nat \<Rightarrow> nat \<Rightarrow> nat \<Rightarrow> ('a \<Rightarrow> 'a \<Rightarrow> bool) \<Rightarrow> 'a list" where
  "pdqsortLessFunc data a b limit lt =
     take a data @ pdq lt limit (take (b - a) (drop a data)) @ drop b data"

text \<open>Modelled from the spec: \<open>pdqsortOrdered\<close> is \<open>pdqsortLessFunc\<close> with the operator \<open><\<close> of the
  element type (section 4.1).\<close>

definition pdqsortOrdered :: "'a ordered \<Rightarrow> 'a list \<Rightarrow> nat \<Rightarrow> nat \<Rightarrow> nat \<Rightarrow> 'a list" where
  "pdqsortOrdered ops data a b limit = pdqsortLessFunc data a b limit (op_lt ops)"

section \<open>The stable sorter\<close>

text \<open>
  Modelled from the spec: the rotation merge of section 4.6 (absent from the sources).
  To merge two adjacent sorted runs, take the middle element \<open>x\<close> of the left run, find
  by bisection the elements of the right run that are less than \<open>x\<close>, rotate them in
  front of \<open>x\<close>, and merge the two halves on either side of \<open>x\<close> in the same way.  An
  element of the right run equivalent to \<open>x\<close> stays behind it.
\<close>

function rotationMerge :: "('a \<Rightarrow> 'a \<Rightarrow> bool) \<Rightarrow> 'a list \<Rightarrow> 'a list \<Rightarrow> 'a list" where
  "rotationMerge lt left right =
     (if left = [] then right
      else if right = [] then left
      else
        (let m = length left div 2;
             x = left ! m;
             k = bisect (\<lambda>i. \<not> lt (right ! i) x) 0 (length right)
         in rotationMerge lt (take m left) (take k right) @ x #
            rotationMerge lt (drop (Suc m) left) (drop k right)))"
  by pat_completeness auto
termination
  by (relation "measure (\<lambda>(lt, left, right). length left)") auto

declare rotationMerge.simps [simp del]

text \<open>
  Modelled from the spec: the stable sort of section 4.6 (\<open>stableLessFunc\<close>, absent from
  the sources): the range is cut into small runs, each sorted by binary insertion, and
  the runs are merged bottom-up, adjacent pairs first, until one run is left.  The
  specification gives no length for the small runs; the small-range threshold is used.
\<close>

function chop :: "nat \<Rightarrow> 'a list \<Rightarrow> 'a list list" where
  "chop n xs = (if n = 0 \<or> length xs \<le> n then [xs] else take n xs # chop n (drop n xs))"
  by pat_completeness auto
termination
  by (relation "measure (\<lambda>(n, xs). length xs)") auto

declare chop.simps [simp del]

text \<open>Modelled from the spec: one bottom-up pass merges the adjacent pairs of runs (section 4.6).\<close>

fun mergePairs :: "('a \<Rightarrow> 'a \<Rightarrow> bool) \<Rightarrow> 'a list list \<Rightarrow> 'a list list" where
  "mergePairs lt (r1 # r2 # rs) = rotationMerge lt r1 r2 # mergePairs lt rs"
| "mergePairs lt rs = rs"

text \<open>Modelled from the spec: the passes are repeated until one run is left (section 4.6).\<close>

function mergeAll :: "('a \<Rightarrow> 'a \<Rightarrow> bool) \<Rightarrow> 'a list list \<Rightarrow> 'a list" where
  "mergeAll lt rs = (if length rs \<le> 1 then concat rs else mergeAll lt (mergePairs lt rs))"
  by pat_completeness auto
termination
proof (relation "measure (\<lambda>(lt, rs). length rs)")
  show "wf (measure (\<lambda>(lt, rs). length rs))" by simp
next
  fix lt :: "'a \<Rightarrow> 'a \<Rightarrow> bool" and rs :: "'a list list"
  assume "\<not> length rs \<le> 1"
  moreover have "length (mergePairs lt qs) \<le> length qs \<and> (1 < length qs \<longrightarrow> length (mergePairs lt qs) < length qs)"
    for qs :: "'a list list"
    by (induction lt qs rule: mergePairs.induct) auto
  ultimately show "((lt, mergePairs lt rs), lt, rs) \<in> measure (\<lambda>(lt, rs). length rs)"
    by (simp add: not_le)
qed

declare mergeAll.simps [simp del]

text \<open>Modelled from the spec: the stable sort of a sequence (section 4.6).\<close>

definition stableSort :: "('a \<Rightarrow> 'a \<Rightarrow> bool) \<Rightarrow> 'a list \<Rightarrow> 'a list" where
  "stableSort lt xs = mergeAll lt (map (insertionSort lt) (chop smallRange xs))"

text \<open>Modelled from the spec: \<open>stableLessFunc(data, n, less)\<close> sorts the first \<open>n\<close> elements of
  \<open>data\<close> (section 4.6).\<close>

definition stableLessFunc :: "'a list \<Rightarrow> nat \<Rightarrow> ('a \<Rightarrow> 'a \<Rightarrow> bool) \<Rightarrow> 'a list" where
  "stableLessFunc data n lt = stableSort lt (take n data) @ drop n data"

section \<open>Slices in memory: \<open>Clone\<close>, \<open>Sort\<close>, \<open>Sorted\<close> and their variants\<close>

text \<open>
  The sorts work in place and \<open>Sorted\<close> clones first, so these functions are modelled on
  a store of arrays.  The store is the list of the arrays allocated so far, an address
  is a position in that list, and an allocation appends, so that a new array never shares
  its address with an older one.  A slice is \<open>nil\<close> or a window (array, offset, length) of
  an array.
\<close>

type_synonym 'a memory = "'a list list"

datatype slice = NilSlice | Slice nat nat nat

fun len :: "slice \<Rightarrow> nat" where
  "len NilSlice = 0"
| "len (Slice a off n) = n"

fun valid :: "'a memory \<Rightarrow> slice \<Rightarrow> bool" where
  "valid h NilSlice = True"
| "valid h (Slice a off n) = (a < length h \<and> off + n \<le> length (h ! a))"

fun elems :: "'a memory \<Rightarrow> slice \<Rightarrow> 'a list" where
  "elems h NilSlice = []"
| "elems h (Slice a off n) = take n (drop off (h ! a))"

text \<open>Writing the elements \<open>ys\<close> over the window of a slice.\<close>

fun store :: "'a memory \<Rightarrow> slice \<Rightarrow> 'a list \<Rightarrow> 'a memory" where
  "store h NilSlice ys = h"
| "store h (Slice a off n) ys = h[a := take off (h ! a) @ ys @ drop (off + n) (h ! a)]"


text \<open>\<open>bits.Len\<close> of the standard library: the number of bits of \<open>n\<close>, 0 for 0.\<close>

fun bits_Len :: "nat \<Rightarrow> nat" where
  "bits_Len n = (if n = 0 then 0 else Suc (bits_Len (n div 2)))"

declare bits_Len.simps [simp del]

definition Sort :: "'a ordered \<Rightarrow> 'a memory \<Rightarrow> slice \<Rightarrow> 'a memory" where
  "Sort ops h x = (let n = len x in store h x (pdqsortOrdered ops (elems h x) 0 n (bits_Len n)))"


definition SortFunc :: "('a \<Rightarrow> 'a \<Rightarrow> bool) \<Rightarrow> 'a memory \<Rightarrow> slice \<Rightarrow> 'a memory" where
  "SortFunc lt h x = (let n = len x in store h x (pdqsortLessFunc (elems h x) 0 n (bits_Len n) lt))"


definition SortStableFunc :: "('a \<Rightarrow> 'a \<Rightarrow> bool) \<Rightarrow> 'a memory \<Rightarrow> slice \<Rightarrow> 'a memory" where
  "SortStableFunc lt h x = store h x (stableLessFunc (elems h x) (len x) lt)"

section \<open>Specification predicates\<close>

text \<open>
  What a run of the bisection loop on \<open>[i, j)\<close> has probed and returned: every probe
  lies in \<open>[i, j)\<close>; a result \<open>k\<close> lies in \<open>[i, j]\<close> and then no probe has panicked; a
  panic is the panic of a probe.
\<close>

definition probes_ok :: "(int \<Rightarrow> error + bool) \<Rightarrow> int \<Rightarrow> int \<Rightarrow> int list \<Rightarrow> error + int \<Rightarrow> bool" where
  "probes_ok f i j ps r \<longleftrightarrow> (\<forall>h\<in>set ps. i \<le> h \<and> h < j) \<and>
     (case r of Inr k \<Rightarrow> i \<le> k \<and> k \<le> j \<and> (\<forall>h\<in>set ps. \<exists>b. f h = Inr b)
              | Inl e \<Rightarrow> \<exists>h\<in>set ps. f h = Inl e)"

text \<open>
  A strict weak ordering of the values of a set \<open>A\<close>, extended to the whole type: the
  values outside \<open>A\<close> form one class above all of \<open>A\<close>.
\<close>

definition extend_order :: "('a \<Rightarrow> 'a \<Rightarrow> bool) \<Rightarrow> 'a set \<Rightarrow> 'a \<Rightarrow> 'a \<Rightarrow> bool" where
  "extend_order lt A a b \<longleftrightarrow> a \<in> A \<and> (b \<in> A \<longrightarrow> lt a b)"


text \<open>
  The elements of a heap, with their multiplicities, and the heap property: no element of
  a subtree is greater than its root.
\<close>

fun heapMset :: "'a maxheap \<Rightarrow> 'a multiset" where
  "heapMset Empty = {#}"
| "heapMset (Node l a r) = add_mset a (heapMset l + heapMset r)"

fun isHeap :: "('a \<Rightarrow> 'a \<Rightarrow> bool) \<Rightarrow> 'a maxheap \<Rightarrow> bool" where
  "isHeap lt Empty = True"
| "isHeap lt (Node l a r) =
     ((\<forall>x\<in>#heapMset l + heapMset r. \<not> lt a x) \<and> isHeap lt l \<and> isHeap lt r)"
section \<open>Properties of the bisection\<close>


subsection \<open>Machine arithmetic\<close>

lemma wrap_id: "- (2 ^ 63) \<le> x \<Longrightarrow> x < 2 ^ 63 \<Longrightarrow> wrap x = x"
  unfolding wrap_def by simp

lemma wrap_mod: "wrap x mod 2 ^ 64 = x mod 2 ^ 64"
  unfolding wrap_def by (simp add: mod_diff_left_eq)

lemma midpoint_eq:
  assumes "0 \<le> i" "i \<le> j" "j \<le> maxInt"
  shows "midpoint i j = (i + j) div 2"
proof -
  have j: "j < 2 ^ 63" using assms by (simp add: maxInt_def)
  have "wrap (i + j) mod 2 ^ 64 = (i + j) mod 2 ^ 64"
    by (rule wrap_mod)
  also have "\<dots> = i + j" using assms j by simp
  finally have "midpoint i j = wrap ((i + j) div 2)" by (simp add: midpoint_def)
  moreover have "wrap ((i + j) div 2) = (i + j) div 2"
    using assms j by (intro wrap_id) linarith+
  ultimately show ?thesis by simp
qed

lemma midpoint_bounds:
  assumes "0 \<le> i" "i < j" "j \<le> maxInt"
  shows "i \<le> midpoint i j" "midpoint i j < j"
  using assms midpoint_eq[of i j] by linarith+

lemma wrap_succ: "0 \<le> h \<Longrightarrow> h < j \<Longrightarrow> j \<le> maxInt \<Longrightarrow> wrap (h + 1) = h + 1"
  unfolding maxInt_def by (intro wrap_id) linarith+

subsection \<open>The bisection loop\<close>

lemma search_loop_unfold:
  assumes "0 \<le> i" "i < j" "j \<le> maxInt"
  shows "search_loop f i j acc =
          (case f (midpoint i j) of
             Inl e \<Rightarrow> Some (acc @ [midpoint i j], Inl e)
           | Inr b \<Rightarrow> if \<not> b then search_loop f (midpoint i j + 1) j (acc @ [midpoint i j])
                      else search_loop f i (midpoint i j) (acc @ [midpoint i j]))"
proof -
  have "wrap (midpoint i j + 1) = midpoint i j + 1"
    using midpoint_bounds[OF assms] assms by (intro wrap_succ[of _ j]) linarith+
  then show ?thesis
    using assms by (subst search_loop.simps) (simp add: Let_def split: sum.split)
qed

lemma search_loop_exit: "\<not> i < j \<Longrightarrow> search_loop f i j acc = Some (acc, Inr i)"
  by (subst search_loop.simps) simp

lemma probes_ok_Cons:
  assumes "probes_ok f i' j' ps r" "i \<le> i'" "j' \<le> j" "i \<le> h" "h < j" "f h = Inr b"
  shows "probes_ok f i j (h # ps) r"
  using assms unfolding probes_ok_def by (cases r) force+

lemma search_loop_range:
  assumes "0 \<le> i" "i \<le> j" "j \<le> maxInt"
  shows "\<exists>ps r. search_loop f i j acc = Some (acc @ ps, r) \<and> probes_ok f i j ps r"
  using assms
proof (induction "nat (j - i)" arbitrary: i j acc rule: less_induct)
  case less
  show ?case
  proof (cases "i < j")
    case False
    then have "search_loop f i j acc = Some (acc @ [], Inr i)"
      by (simp add: search_loop_exit)
    moreover have "probes_ok f i j [] (Inr i)" using less.prems by (simp add: probes_ok_def)
    ultimately show ?thesis by blast
  next
    case True
    define h where "h = midpoint i j"
    have hb: "i \<le> h" "h < j" using midpoint_bounds[of i j] True less.prems by (simp_all add: h_def)
    note unf = search_loop_unfold[OF less.prems(1) True less.prems(3), of f acc, folded h_def]
    show ?thesis
    proof (cases "f h")
      case (Inl e)
      then have "search_loop f i j acc = Some (acc @ [h], Inl e)" by (simp add: unf)
      moreover have "probes_ok f i j [h] (Inl e)" using hb Inl by (simp add: probes_ok_def)
      ultimately show ?thesis by blast
    next
      case (Inr b)
      show ?thesis
      proof (cases b)
        case False
        have "nat (j - (h + 1)) < nat (j - i)" using hb by linarith
        from less.hyps[OF this, of "acc @ [h]"] hb less.prems
        obtain ps r where *: "search_loop f (h + 1) j (acc @ [h]) = Some ((acc @ [h]) @ ps, r)"
          "probes_ok f (h + 1) j ps r"
          by force
        have "search_loop f i j acc = Some (acc @ (h # ps), r)"
          using Inr False * by (simp add: unf)
        moreover have "probes_ok f i j (h # ps) r"
          using *(2) hb Inr by (intro probes_ok_Cons[where i'="h+1" and j'=j]) simp_all
        ultimately show ?thesis by blast
      next
        case True
        have "nat (h - i) < nat (j - i)" using hb by linarith
        from less.hyps[OF this, of "acc @ [h]"] hb less.prems
        obtain ps r where *: "search_loop f i h (acc @ [h]) = Some ((acc @ [h]) @ ps, r)"
          "probes_ok f i h ps r"
          by force
        have "search_loop f i j acc = Some (acc @ (h # ps), r)"
          using Inr True * by (simp add: unf)
        moreover have "probes_ok f i j (h # ps) r"
          using *(2) hb Inr by (intro probes_ok_Cons[where i'=i and j'=h]) simp_all
        ultimately show ?thesis by blast
      qed
    qed
  qed
qed

lemma search_loop_threshold:
  assumes "0 \<le> i" "i \<le> k" "k \<le> j" "j \<le> maxInt"
    and "\<forall>h. i \<le> h \<and> h < k \<longrightarrow> f h = Inr False"
    and "\<forall>h. k \<le> h \<and> h < j \<longrightarrow> f h = Inr True"
  shows "\<exists>ps. search_loop f i j acc = Some (acc @ ps, Inr k)"
  using assms
proof (induction "nat (j - i)" arbitrary: i j acc rule: less_induct)
  case less
  show ?case
  proof (cases "i < j")
    case False
    then have "k = i" using less.prems by linarith
    then have "search_loop f i j acc = Some (acc @ [], Inr k)"
      using False by (simp add: search_loop_exit)
    then show ?thesis by blast
  next
    case True
    define h where "h = midpoint i j"
    have hb: "i \<le> h" "h < j" using midpoint_bounds[of i j] True less.prems by (simp_all add: h_def)
    note unf = search_loop_unfold[OF less.prems(1) True less.prems(4), of f acc, folded h_def]
    show ?thesis
    proof (cases "h < k")
      case True
      then have fh: "f h = Inr False" using hb less.prems by simp
      have "nat (j - (h + 1)) < nat (j - i)" using hb by linarith
      from less.hyps[OF this, of "acc @ [h]"] hb less.prems True
      obtain ps where "search_loop f (h + 1) j (acc @ [h]) = Some ((acc @ [h]) @ ps, Inr k)"
        by force
      then have "search_loop f i j acc = Some (acc @ (h # ps), Inr k)"
        using fh by (simp add: unf)
      then show ?thesis by blast
    next
      case False
      then have fh: "f h = Inr True" using hb less.prems by simp
      have "nat (h - i) < nat (j - i)" using hb by linarith
      from less.hyps[OF this, of "acc @ [h]"] hb less.prems False
      obtain ps where "search_loop f i h (acc @ [h]) = Some ((acc @ [h]) @ ps, Inr k)"
        by force
      then have "search_loop f i j acc = Some (acc @ (h # ps), Inr k)"
        using fh by (simp add: unf)
      then show ?thesis by blast
    qed
  qed
qed

lemma search_threshold:
  assumes "0 \<le> k" "k \<le> n" "n \<le> maxInt"
    and "\<forall>i. 0 \<le> i \<and> i < k \<longrightarrow> f i = Inr False"
    and "\<forall>i. k \<le> i \<and> i < n \<longrightarrow> f i = Inr True"
  shows "search n f = Some (Inr k)"
proof -
  obtain ps where "search_loop f 0 n [] = Some ([] @ ps, Inr k)"
    using search_loop_threshold[of 0 k n f "[]"] assms by blast
  then show ?thesis by (simp add: search_def search_probes_def)
qed

section \<open>Properties of orderings\<close>

subsection \<open>Strict weak orderings\<close>

lemma swo_irrefl: "strict_weak_order lt \<Longrightarrow> \<not> lt a a"
  by (simp add: strict_weak_order_def)

lemma swo_trans: "strict_weak_order lt \<Longrightarrow> lt a b \<Longrightarrow> lt b c \<Longrightarrow> lt a c"
  unfolding strict_weak_order_def by blast

lemma swo_asym: "strict_weak_order lt \<Longrightarrow> lt a b \<Longrightarrow> \<not> lt b a"
  using swo_trans[of lt a b a] swo_irrefl[of lt a] by blast

lemma swo_incomp_trans:
  "strict_weak_order lt \<Longrightarrow> \<not> lt a b \<Longrightarrow> \<not> lt b a \<Longrightarrow> \<not> lt b c \<Longrightarrow> \<not> lt c b \<Longrightarrow> \<not> lt a c"
  unfolding strict_weak_order_def by blast

text \<open>Negative transitivity: "not less" is transitive.\<close>

lemma swo_neg_trans:
  assumes swo: "strict_weak_order lt" and ab: "\<not> lt b a" and bc: "\<not> lt c b"
  shows "\<not> lt c a"
proof
  assume ca: "lt c a"
  have nab: "\<not> lt a b"
  proof
    assume "lt a b"
    then have "lt c b" using swo_trans[OF swo ca] by blast
    then show False using bc by simp
  qed
  have nbc: "\<not> lt b c"
  proof
    assume "lt b c"
    then have "lt b a" using swo_trans[OF swo _ ca] by blast
    then show False using ab by simp
  qed
  have "\<not> lt c a" using swo_incomp_trans[OF swo bc nbc ab nab] .
  then show False using ca by simp
qed

lemma swo_less_not_less_trans:
  assumes swo: "strict_weak_order lt" and ab: "lt a b" and bc: "\<not> lt c b"
  shows "lt a c"
proof (rule ccontr)
  assume nac: "\<not> lt a c"
  have "\<not> lt a b" using swo_neg_trans[OF swo bc nac] .
  then show False using ab by simp
qed

lemma swo_not_less_less_trans:
  assumes swo: "strict_weak_order lt" and ab: "\<not> lt b a" and bc: "lt b c"
  shows "lt a c"
proof (rule ccontr)
  assume nac: "\<not> lt a c"
  have "\<not> lt b c" using swo_neg_trans[OF swo nac ab] .
  then show False using bc by simp
qed

lemma swo_linorder: "strict_weak_order ((<) :: 'a::linorder \<Rightarrow> 'a \<Rightarrow> bool)"
  unfolding strict_weak_order_def by auto

subsection \<open>Ordered element types\<close>

lemma native_simps [simp]:
  "op_lt native = (<)" "op_le native = (\<le>)" "op_gt native = (>)"
  "op_ge native = (\<ge>)" "op_eq native = (=)" "op_ne native = (\<noteq>)"
  by (simp_all add: native_def)

lemma float64_ops_simps [simp]:
  "op_lt float64_ops = float_lt" "op_le float64_ops = float_le"
  "op_gt float64_ops = (\<lambda>a b. float_lt b a)" "op_ge float64_ops = (\<lambda>a b. float_le b a)"
  "op_eq float64_ops = float_eq" "op_ne float64_ops = (\<lambda>a b. \<not> float_eq a b)"
  by (simp_all add: float64_ops_def)

lemma three_way_cmp: "three_way (cmp (native :: 'a::linorder ordered))"
  unfolding three_way_def strict_weak_order_def cmp_def by auto

lemma swo_on_UNIV: "strict_weak_order_on lt UNIV \<longleftrightarrow> strict_weak_order lt"
  by (simp add: strict_weak_order_on_def strict_weak_order_def)

lemma swo_on_subset: "strict_weak_order_on lt A \<Longrightarrow> B \<subseteq> A \<Longrightarrow> strict_weak_order_on lt B"
  unfolding strict_weak_order_on_def by (intro conjI ballI impI) blast+

lemma totally_ordered_subset: "totally_ordered ops A \<Longrightarrow> B \<subseteq> A \<Longrightarrow> totally_ordered ops B"
  unfolding totally_ordered_def using swo_on_subset[of "op_lt ops" A B] by blast

text \<open>All values of an integer or string type are totally ordered.\<close>

lemma totally_ordered_native: "totally_ordered (native :: 'a::linorder ordered) A"
proof -
  have "strict_weak_order_on ((<) :: 'a \<Rightarrow> 'a \<Rightarrow> bool) A"
    using swo_on_subset[of "(<)" UNIV A] swo_linorder by (simp add: swo_on_UNIV)
  then show ?thesis by (auto simp: totally_ordered_def)
qed

text \<open>The floating-point numbers other than NaN are totally ordered.\<close>

lemma totally_ordered_float64: "totally_ordered (float64_ops :: 'v::linorder float64 ordered) (Num ` V)"
proof -
  have "strict_weak_order_on (float_lt :: 'v float64 \<Rightarrow> 'v float64 \<Rightarrow> bool) (Num ` V)"
    unfolding strict_weak_order_on_def by auto
  then show ?thesis by (auto simp: totally_ordered_def)
qed

subsection \<open>Orderings of the values of a set\<close>

lemma extend_in: "a \<in> A \<Longrightarrow> b \<in> A \<Longrightarrow> extend_order lt A a b = lt a b"
  by (simp add: extend_order_def)

lemma swo_extend:
  assumes "strict_weak_order_on lt A"
  shows "strict_weak_order (extend_order lt A)"
proof -
  have irr: "\<not> lt a a" if "a \<in> A" for a
    using assms that by (simp add: strict_weak_order_on_def)
  have tr: "lt a c" if "a \<in> A" "b \<in> A" "c \<in> A" "lt a b" "lt b c" for a b c
    using assms that unfolding strict_weak_order_on_def by blast
  have inc: "\<not> lt a c" if "a \<in> A" "b \<in> A" "c \<in> A" "\<not> lt a b" "\<not> lt b a" "\<not> lt b c" "\<not> lt c b"
    for a b c
    using assms that unfolding strict_weak_order_on_def by blast
  have 1: "\<not> extend_order lt A a a" for a
    using irr[of a] by (auto simp: extend_order_def)
  have 2: "extend_order lt A a c" if "extend_order lt A a b" "extend_order lt A b c" for a b c
    using that tr[of a b c] by (auto simp: extend_order_def)
  have 3: "\<not> extend_order lt A a c"
    if "\<not> extend_order lt A a b" "\<not> extend_order lt A b a" "\<not> extend_order lt A b c" "\<not> extend_order lt A c b" for a b c
  proof (cases "b \<in> A")
    case True
    then have "a \<in> A" "c \<in> A" using that by (auto simp: extend_order_def)
    then show ?thesis using that True inc[of a b c] by (auto simp: extend_order_def)
  next
    case False
    then have "a \<notin> A" using that by (auto simp: extend_order_def)
    then show ?thesis by (simp add: extend_order_def)
  qed
  show ?thesis
    unfolding strict_weak_order_def using 1 2 3 by blast
qed


subsection \<open>Ascending slices\<close>

lemma ascending_iff_nth:
  "ascending lt xs \<longleftrightarrow> (\<forall>i j. i < j \<and> j < length xs \<longrightarrow> \<not> lt (xs ! j) (xs ! i))"
  unfolding ascending_def by (auto simp: sorted_wrt_iff_nth_less)

lemma ascending_linorder: "ascending (<) xs \<longleftrightarrow> sorted (xs :: 'a::linorder list)"
  unfolding ascending_def by (simp add: not_less)

lemma ascending_extend:
  assumes "set xs \<subseteq> A"
  shows "ascending (extend_order lt A) xs \<longleftrightarrow> ascending lt xs"
proof -
  have "extend_order lt A (xs ! j) (xs ! i) = lt (xs ! j) (xs ! i)" if "i < j" "j < length xs" for i j
    using assms that by (intro extend_in) (auto simp: subset_iff)
  then show ?thesis unfolding ascending_iff_nth by auto
qed

lemma ascending_not_less_mono:
  assumes swo: "strict_weak_order lt" and asc: "ascending lt xs"
  shows "\<forall>i j. i < j \<and> j < length xs \<and> \<not> lt (xs ! i) t \<longrightarrow> \<not> lt (xs ! j) t"
proof (intro allI impI)
  fix i j assume h: "i < j \<and> j < length xs \<and> \<not> lt (xs ! i) t"
  then have "\<not> lt (xs ! j) (xs ! i)" using asc by (simp add: ascending_iff_nth)
  then show "\<not> lt (xs ! j) t" using swo_neg_trans[OF swo _ _, of "xs ! i" t "xs ! j"] h by blast
qed

section \<open>Properties of the binary searches\<close>

subsection \<open>Reading a slice\<close>

lemma index_in_range: "0 \<le> i \<Longrightarrow> i < int (length s) \<Longrightarrow> index s i = Inr (s ! nat i)"
  by (simp add: index_def)

lemma index_nat: "i < length s \<Longrightarrow> index s (int i) = Inr (s ! i)"
  by (simp add: index_def)

subsection \<open>Bisection over a slice\<close>

text \<open>The closure that \<open>BinarySearch\<close> and \<open>BinarySearchFunc\<close> hand to \<open>search\<close>.\<close>

lemma search_closure_total:
  fixes space :: "'a list" and P :: "'a \<Rightarrow> bool"
  defines "f \<equiv> (\<lambda>i. case index space i of Inl e \<Rightarrow> Inl e | Inr v \<Rightarrow> Inr (P v))"
  assumes len: "int (length space) \<le> maxInt"
  shows "\<exists>k. search (int (length space)) f = Some (Inr k) \<and> 0 \<le> k \<and> k \<le> int (length space)"
proof -
  obtain ps r where run: "search_loop f 0 (int (length space)) [] = Some ([] @ ps, r)"
    and ok: "probes_ok f 0 (int (length space)) ps r"
    using search_loop_range[of 0 "int (length space)" f "[]"] len by auto
  have inr: "\<exists>b. f h = Inr b" if "0 \<le> h" "h < int (length space)" for h
    using that by (simp add: f_def index_in_range)
  show ?thesis
  proof (cases r)
    case (Inl e)
    then obtain h where "h \<in> set ps" "f h = Inl e" using ok by (auto simp: probes_ok_def)
    moreover have "0 \<le> h \<and> h < int (length space)"
      using ok \<open>h \<in> set ps\<close> by (simp add: probes_ok_def)
    ultimately show ?thesis using inr[of h] by simp
  next
    case (Inr k)
    then have "0 \<le> k \<and> k \<le> int (length space)" using ok by (simp add: probes_ok_def)
    then show ?thesis using run Inr by (simp add: search_def search_probes_def)
  qed
qed

lemma takeWhile_threshold:
  assumes mono: "\<forall>i j. i < j \<and> j < length xs \<and> P (xs ! i) \<longrightarrow> P (xs ! j)"
  defines "k \<equiv> length (takeWhile (\<lambda>v. \<not> P v) xs)"
  shows "k \<le> length xs" "\<forall>i<k. \<not> P (xs ! i)" "\<forall>i. k \<le> i \<and> i < length xs \<longrightarrow> P (xs ! i)"
proof -
  show le: "k \<le> length xs" unfolding k_def by (rule length_takeWhile_le)
  show "\<forall>i<k. \<not> P (xs ! i)"
  proof (intro allI impI)
    fix i assume "i < k"
    then have "takeWhile (\<lambda>v. \<not> P v) xs ! i \<in> set (takeWhile (\<lambda>v. \<not> P v) xs)"
      unfolding k_def by (rule nth_mem)
    then have "\<not> P (takeWhile (\<lambda>v. \<not> P v) xs ! i)" by (rule set_takeWhileD[THEN conjunct2])
    then show "\<not> P (xs ! i)" using \<open>i < k\<close> unfolding k_def by (simp add: takeWhile_nth)
  qed
  show "\<forall>i. k \<le> i \<and> i < length xs \<longrightarrow> P (xs ! i)"
  proof (intro allI impI)
    fix i assume i: "k \<le> i \<and> i < length xs"
    then have "k < length xs" by simp
    then have pk: "P (xs ! k)"
      using nth_length_takeWhile[of "\<lambda>v. \<not> P v" xs] unfolding k_def by simp
    show "P (xs ! i)"
    proof (cases "i = k")
      case True then show ?thesis using pk by simp
    next
      case False
      then have "k < i" using i by simp
      then show ?thesis using mono pk i by blast
    qed
  qed
qed

lemma search_closure_threshold:
  fixes space :: "'a list" and P :: "'a \<Rightarrow> bool"
  defines "f \<equiv> (\<lambda>i. case index space i of Inl e \<Rightarrow> Inl e | Inr v \<Rightarrow> Inr (P v))"
  assumes len: "int (length space) \<le> maxInt"
    and mono: "\<forall>i j. i < j \<and> j < length space \<and> P (space ! i) \<longrightarrow> P (space ! j)"
  shows "search (int (length space)) f = Some (Inr (int (length (takeWhile (\<lambda>v. \<not> P v) space))))"
proof -
  define k where "k = length (takeWhile (\<lambda>v. \<not> P v) space)"
  note th = takeWhile_threshold[OF mono, folded k_def]
  have lo: "f i = Inr False" if "0 \<le> i" "i < int k" for i
  proof -
    have "nat i < k" using that by linarith
    then have "\<not> P (space ! nat i)" using th(2) by blast
    moreover have "i < int (length space)" using that th(1) by linarith
    ultimately show ?thesis using that by (simp add: f_def index_in_range)
  qed
  have hi: "f i = Inr True" if "int k \<le> i" "i < int (length space)" for i
  proof -
    have "k \<le> nat i \<and> nat i < length space" using that by linarith
    then have "P (space ! nat i)" using th(3) by blast
    moreover have "0 \<le> i" using that by linarith
    ultimately show ?thesis using that by (simp add: f_def index_in_range)
  qed
  have "search (int (length space)) f = Some (Inr (int k))"
    using th(1) len lo hi by (intro search_threshold) simp_all
  then show ?thesis by (simp add: k_def)
qed

subsection \<open>\<open>BinarySearch\<close> and \<open>BinarySearchFunc\<close> on a given search result\<close>

lemma BinarySearch_of_search:
  assumes "search (int (length space))
             (\<lambda>i. case index space i of Inl e \<Rightarrow> Inl e | Inr v \<Rightarrow> Inr (op_ge ops v target)) = Some (Inr (int k))"
    and "k \<le> length space"
  shows "BinarySearch ops target space =
           Some (Inr (int k, k < length space \<and> \<not> op_ne ops (space ! k) target))"
  using assms by (simp add: BinarySearch_def index_nat)

lemma BinarySearchFunc_of_search:
  assumes "search (int (length space))
             (\<lambda>i. case index space i of Inl e \<Rightarrow> Inl e | Inr v \<Rightarrow> Inr (c v target \<ge> 0)) = Some (Inr (int k))"
    and "k \<le> length space"
  shows "BinarySearchFunc c target space = Some (Inr (int k, k < length space \<and> c (space ! k) target = 0))"
  using assms by (simp add: BinarySearchFunc_def index_nat)

lemma BinarySearch_no_panic:
  assumes "int (length space) \<le> maxInt"
  shows "\<exists>pos found. BinarySearch ops target space = Some (Inr (pos, found))"
proof -
  obtain k where k: "search (int (length space))
      (\<lambda>i. case index space i of Inl e \<Rightarrow> Inl e | Inr v \<Rightarrow> Inr (op_ge ops v target)) = Some (Inr k)"
      "0 \<le> k" "k \<le> int (length space)"
    using search_closure_total[OF assms, of "\<lambda>v. op_ge ops v target"] by blast
  then have "k = int (nat k)" "nat k \<le> length space" by simp_all
  then show ?thesis using BinarySearch_of_search[of space ops target "nat k"] k(1) by auto
qed

lemma BinarySearchFunc_no_panic:
  assumes "int (length space) \<le> maxInt"
  shows "\<exists>pos found. BinarySearchFunc c target space = Some (Inr (pos, found))"
proof -
  obtain k where k: "search (int (length space))
      (\<lambda>i. case index space i of Inl e \<Rightarrow> Inl e | Inr v \<Rightarrow> Inr (c v target \<ge> 0)) = Some (Inr k)"
      "0 \<le> k" "k \<le> int (length space)"
    using search_closure_total[OF assms, of "\<lambda>v. c v target \<ge> 0"] by blast
  then have "k = int (nat k)" "nat k \<le> length space" by simp_all
  then show ?thesis using BinarySearchFunc_of_search[of space c target "nat k"] k(1) by auto
qed

lemma search_probes_range:
  assumes "n \<le> maxInt"
  shows "\<exists>ps r. search_probes n f = Some (ps, r) \<and> (\<forall>h\<in>set ps. 0 \<le> h \<and> h < n)"
proof (cases "0 \<le> n")
  case True
  then obtain ps r where "search_loop f 0 n [] = Some ([] @ ps, r)" "probes_ok f 0 n ps r"
    using search_loop_range[of 0 n f "[]"] assms by auto
  then show ?thesis by (auto simp: search_probes_def probes_ok_def)
next
  case False
  then have "search_loop f 0 n [] = Some ([], Inr 0)" by (simp add: search_loop_exit)
  then show ?thesis by (simp add: search_probes_def)
qed

lemma search_probes_empty: "n \<le> 0 \<Longrightarrow> search_probes n f = Some ([], Inr 0)"
  by (simp add: search_probes_def search_loop_exit)

text \<open>On an ascending slice "not less than the target" is monotonic.\<close>

lemma ascending_not_less_mono_on:
  assumes swo: "strict_weak_order_on lt (insert t (set xs))" and asc: "ascending lt xs"
  shows "\<forall>i j. i < j \<and> j < length xs \<and> \<not> lt (xs ! i) t \<longrightarrow> \<not> lt (xs ! j) t"
proof -
  let ?A = "insert t (set xs)"
  have sub: "set xs \<subseteq> ?A" by auto
  have asc': "ascending (extend_order lt ?A) xs" using asc by (simp add: ascending_extend[OF sub])
  have ext: "extend_order lt ?A (xs ! i) t = lt (xs ! i) t" if "i < length xs" for i
    using that by (intro extend_in) simp_all
  note mono = ascending_not_less_mono[OF swo_extend[OF swo] asc', of t]
  show ?thesis
  proof (intro allI impI)
    fix i j assume h: "i < j \<and> j < length xs \<and> \<not> lt (xs ! i) t"
    then have "i < length xs" by simp
    then have "\<not> extend_order lt ?A (xs ! i) t" using h by (simp add: ext)
    then have "\<not> extend_order lt ?A (xs ! j) t" using mono h by blast
    then show "\<not> lt (xs ! j) t" using h by (simp add: ext)
  qed
qed

lemma BinarySearch_sorted:
  fixes space :: "'a list" and target :: 'a
  assumes len: "int (length space) \<le> maxInt"
    and tot: "totally_ordered ops (insert target (set space))"
    and asc: "ascending (op_lt ops) space"
  defines "pos \<equiv> length (takeWhile (\<lambda>v. op_lt ops v target) space)"
  shows "BinarySearch ops target space =
           Some (Inr (int pos, pos < length space \<and> equivalent (op_lt ops) (space ! pos) target))"
    and "pos \<le> length space" and "\<forall>i<pos. op_lt ops (space ! i) target"
    and "\<forall>i. pos \<le> i \<and> i < length space \<longrightarrow> \<not> op_lt ops (space ! i) target"
proof -
  have swo: "strict_weak_order_on (op_lt ops) (insert target (set space))"
    using tot by (simp add: totally_ordered_def)
  have ge: "op_ge ops v target \<longleftrightarrow> \<not> op_lt ops v target" if "v \<in> set space" for v
    using tot that by (simp add: totally_ordered_def)
  have ne: "op_ne ops v target \<longleftrightarrow> \<not> equivalent (op_lt ops) v target" if "v \<in> set space" for v
    using tot that by (simp add: totally_ordered_def equivalent_def)
  have mono: "\<forall>i j. i < j \<and> j < length space \<and> op_ge ops (space ! i) target \<longrightarrow> op_ge ops (space ! j) target"
  proof (intro allI impI)
    fix i j assume h: "i < j \<and> j < length space \<and> op_ge ops (space ! i) target"
    then have "i < length space" by simp
    then have "\<not> op_lt ops (space ! i) target" using h ge[of "space ! i"] by simp
    then have "\<not> op_lt ops (space ! j) target"
      using ascending_not_less_mono_on[OF swo asc] h by blast
    then show "op_ge ops (space ! j) target" using h ge[of "space ! j"] by simp
  qed
  have tw: "takeWhile (\<lambda>v. \<not> op_ge ops v target) space = takeWhile (\<lambda>v. op_lt ops v target) space"
    by (rule takeWhile_cong) (simp_all add: ge)
  note th = takeWhile_threshold[OF mono, unfolded tw, folded pos_def]
  show le: "pos \<le> length space" by (rule th(1))
  show "\<forall>i<pos. op_lt ops (space ! i) target"
  proof (intro allI impI)
    fix i assume "i < pos"
    then have "\<not> op_ge ops (space ! i) target" "i < length space" using th(2) le by simp_all
    then show "op_lt ops (space ! i) target" using ge[of "space ! i"] by simp
  qed
  show "\<forall>i. pos \<le> i \<and> i < length space \<longrightarrow> \<not> op_lt ops (space ! i) target"
  proof (intro allI impI)
    fix i assume i: "pos \<le> i \<and> i < length space"
    then have "op_ge ops (space ! i) target" using th(3) by simp
    then show "\<not> op_lt ops (space ! i) target" using ge[of "space ! i"] i by simp
  qed
  have "search (int (length space))
      (\<lambda>i. case index space i of Inl e \<Rightarrow> Inl e | Inr v \<Rightarrow> Inr (op_ge ops v target)) = Some (Inr (int pos))"
    using search_closure_threshold[OF len mono] by (simp add: tw pos_def)
  then have "BinarySearch ops target space =
           Some (Inr (int pos, pos < length space \<and> \<not> op_ne ops (space ! pos) target))"
    using le by (rule BinarySearch_of_search)
  moreover have "(pos < length space \<and> \<not> op_ne ops (space ! pos) target) \<longleftrightarrow>
                 (pos < length space \<and> equivalent (op_lt ops) (space ! pos) target)"
    using ne[of "space ! pos"] by auto
  ultimately show "BinarySearch ops target space =
           Some (Inr (int pos, pos < length space \<and> equivalent (op_lt ops) (space ! pos) target))"
    by simp
qed

lemma three_way_sign:
  assumes "three_way c"
  shows "0 \<le> c a b \<longleftrightarrow> \<not> c a b < 0" "c a b = 0 \<longleftrightarrow> \<not> c a b < 0 \<and> \<not> c b a < 0"
proof -
  show "0 \<le> c a b \<longleftrightarrow> \<not> c a b < 0" by linarith
  have "0 < c a b \<longleftrightarrow> c b a < 0" using assms by (simp add: three_way_def)
  then show "c a b = 0 \<longleftrightarrow> \<not> c a b < 0 \<and> \<not> c b a < 0" by linarith
qed

lemma BinarySearchFunc_sorted:
  fixes space :: "'a list" and target :: 'a
  assumes len: "int (length space) \<le> maxInt" and tw: "three_way c"
    and asc: "ascending (\<lambda>a b. c a b < 0) space"
  defines "pos \<equiv> length (takeWhile (\<lambda>v. c v target < 0) space)"
  shows "BinarySearchFunc c target space =
           Some (Inr (int pos, pos < length space \<and> equivalent (\<lambda>a b. c a b < 0) (space ! pos) target))"
    and "pos \<le> length space" and "\<forall>i<pos. c (space ! i) target < 0"
    and "\<forall>i. pos \<le> i \<and> i < length space \<longrightarrow> \<not> c (space ! i) target < 0"
proof -
  have swo: "strict_weak_order (\<lambda>a b. c a b < 0)" using tw by (simp add: three_way_def)
  have mono: "\<forall>i j. i < j \<and> j < length space \<and> 0 \<le> c (space ! i) target \<longrightarrow> 0 \<le> c (space ! j) target"
    using ascending_not_less_mono[OF swo asc, of target] by (simp add: three_way_sign(1)[OF tw])
  have tk: "takeWhile (\<lambda>v. \<not> 0 \<le> c v target) space = takeWhile (\<lambda>v. c v target < 0) space"
    by (simp add: not_le)
  note th = takeWhile_threshold[OF mono, unfolded tk, folded pos_def]
  show "pos \<le> length space" by (rule th(1))
  show "\<forall>i<pos. c (space ! i) target < 0" using th(2) by (simp add: not_le)
  show "\<forall>i. pos \<le> i \<and> i < length space \<longrightarrow> \<not> c (space ! i) target < 0" using th(3) by (simp add: not_less)
  have "search (int (length space))
      (\<lambda>i. case index space i of Inl e \<Rightarrow> Inl e | Inr v \<Rightarrow> Inr (c v target \<ge> 0)) = Some (Inr (int pos))"
    using search_closure_threshold[OF len mono] by (simp add: tk pos_def)
  then have "BinarySearchFunc c target space = Some (Inr (int pos, pos < length space \<and> c (space ! pos) target = 0))"
    using th(1) by (rule BinarySearchFunc_of_search)
  then show "BinarySearchFunc c target space =
           Some (Inr (int pos, pos < length space \<and> equivalent (\<lambda>a b. c a b < 0) (space ! pos) target))"
    by (simp add: equivalent_def three_way_sign(2)[OF tw])
qed

subsection \<open>The sortedness checks\<close>

lemma IsSortedFunc_loop_adjacent:
  "i < int (length x) \<Longrightarrow>
   IsSortedFunc_loop lt x i = Inr (\<forall>k. 0 < k \<and> int k \<le> i \<longrightarrow> \<not> lt (x ! k) (x ! (k - 1)))"
proof (induction lt x i rule: IsSortedFunc_loop.induct)
  case (1 lt x i)
  show ?case
  proof (cases "i > 0")
    case False
    then show ?thesis by (subst IsSortedFunc_loop.simps) auto
  next
    case True
    have ia: "index x i = Inr (x ! nat i)" and ib: "index x (i - 1) = Inr (x ! (nat i - 1))"
      using True "1.prems" by (simp_all add: index_def nat_diff_distrib)
    show ?thesis
    proof (cases "lt (x ! nat i) (x ! (nat i - 1))")
      case lt: True
      have "IsSortedFunc_loop lt x i = Inr False"
        using True ia ib lt by (subst IsSortedFunc_loop.simps) simp
      moreover have "\<not> (\<forall>k. 0 < k \<and> int k \<le> i \<longrightarrow> \<not> lt (x ! k) (x ! (k - 1)))"
      proof
        assume "\<forall>k. 0 < k \<and> int k \<le> i \<longrightarrow> \<not> lt (x ! k) (x ! (k - 1))"
        then have "0 < nat i \<and> int (nat i) \<le> i \<longrightarrow> \<not> lt (x ! nat i) (x ! (nat i - 1))" by (rule spec)
        then show False using lt True by simp
      qed
      ultimately show ?thesis by simp
    next
      case nlt: False
      have "IsSortedFunc_loop lt x i = IsSortedFunc_loop lt x (i - 1)"
        using True ia ib nlt by (subst IsSortedFunc_loop.simps) simp
      also have "\<dots> = Inr (\<forall>k. 0 < k \<and> int k \<le> i - 1 \<longrightarrow> \<not> lt (x ! k) (x ! (k - 1)))"
        using "1.IH"[OF True ia ib nlt] "1.prems" by simp
      also have "(\<forall>k. 0 < k \<and> int k \<le> i - 1 \<longrightarrow> \<not> lt (x ! k) (x ! (k - 1))) \<longleftrightarrow>
                 (\<forall>k. 0 < k \<and> int k \<le> i \<longrightarrow> \<not> lt (x ! k) (x ! (k - 1)))"
      proof (intro iffI allI impI)
        fix k assume h: "\<forall>k. 0 < k \<and> int k \<le> i - 1 \<longrightarrow> \<not> lt (x ! k) (x ! (k - 1))" and k: "0 < k \<and> int k \<le> i"
        show "\<not> lt (x ! k) (x ! (k - 1))"
        proof (cases "int k = i")
          case True
          then have "k = nat i" by simp
          then show ?thesis using nlt by simp
        next
          case False
          then have "int k \<le> i - 1" using k by linarith
          then show ?thesis using h k by blast
        qed
      next
        fix k assume h: "\<forall>k. 0 < k \<and> int k \<le> i \<longrightarrow> \<not> lt (x ! k) (x ! (k - 1))" and k: "0 < k \<and> int k \<le> i - 1"
        then have "0 < k \<and> int k \<le> i" by linarith
        then show "\<not> lt (x ! k) (x ! (k - 1))" using h by blast
      qed
      finally show ?thesis .
    qed
  qed
qed

lemma IsSortedFunc_adjacent:
  "IsSortedFunc lt x = Inr (\<forall>k. 0 < k \<and> k < length x \<longrightarrow> \<not> lt (x ! k) (x ! (k - 1)))"
proof -
  have "int k \<le> int (length x) - 1 \<longleftrightarrow> k < length x" for k by linarith
  then have "(\<forall>k. 0 < k \<and> int k \<le> int (length x) - 1 \<longrightarrow> \<not> lt (x ! k) (x ! (k - 1))) \<longleftrightarrow>
        (\<forall>k. 0 < k \<and> k < length x \<longrightarrow> \<not> lt (x ! k) (x ! (k - 1)))"
    by (simp only:)
  moreover have "int (length x) - 1 < int (length x)" by simp
  ultimately show ?thesis
    unfolding IsSortedFunc_def using IsSortedFunc_loop_adjacent[of "int (length x) - 1" x lt]
    by (simp only:)
qed

lemma IsSorted_loop_eq: "IsSorted_loop ops x i = IsSortedFunc_loop (op_lt ops) x i"
proof (induction ops x i rule: IsSorted_loop.induct)
  case (1 ops x i)
  show ?case
    by (subst IsSorted_loop.simps, subst IsSortedFunc_loop.simps)
       (auto simp: "1.IH" split: sum.splits)
qed

lemma IsSorted_eq: "IsSorted ops x = IsSortedFunc (op_lt ops) x"
  by (simp add: IsSorted_def IsSortedFunc_def IsSorted_loop_eq)

lemma swo_transp: "strict_weak_order lt \<Longrightarrow> transp (\<lambda>a b. \<not> lt b a)"
  by (rule transpI) (rule swo_neg_trans)

lemma adjacent_iff_ascending:
  assumes "strict_weak_order lt"
  shows "(\<forall>k. 0 < k \<and> k < length x \<longrightarrow> \<not> lt (x ! k) (x ! (k - 1))) \<longleftrightarrow> ascending lt x"
proof -
  have "ascending lt x \<longleftrightarrow> (\<forall>i. Suc i < length x \<longrightarrow> \<not> lt (x ! Suc i) (x ! i))"
    unfolding ascending_def by (rule sorted_wrt_iff_nth_Suc_transp[OF swo_transp[OF assms]])
  also have "\<dots> \<longleftrightarrow> (\<forall>k. 0 < k \<and> k < length x \<longrightarrow> \<not> lt (x ! k) (x ! (k - 1)))"
  proof (intro iffI allI impI)
    fix k assume h: "\<forall>i. Suc i < length x \<longrightarrow> \<not> lt (x ! Suc i) (x ! i)" and k: "0 < k \<and> k < length x"
    then obtain i where "k = Suc i" by (cases k) auto
    then show "\<not> lt (x ! k) (x ! (k - 1))" using h k by auto
  next
    fix i assume h: "\<forall>k. 0 < k \<and> k < length x \<longrightarrow> \<not> lt (x ! k) (x ! (k - 1))" and "Suc i < length x"
    then show "\<not> lt (x ! Suc i) (x ! i)" using h[rule_format, of "Suc i"] by simp
  qed
  finally show ?thesis by simp
qed

lemma IsSortedFunc_ascending:
  "strict_weak_order lt \<Longrightarrow> IsSortedFunc lt x = Inr (ascending lt x)"
  by (simp only: IsSortedFunc_adjacent adjacent_iff_ascending)

lemma adjacent_iff_ascending_on:
  assumes "strict_weak_order_on lt (set x)"
  shows "(\<forall>k. 0 < k \<and> k < length x \<longrightarrow> \<not> lt (x ! k) (x ! (k - 1))) \<longleftrightarrow> ascending lt x"
proof -
  let ?lt = "extend_order lt (set x)"
  have ext: "?lt (x ! k) (x ! (k - 1)) = lt (x ! k) (x ! (k - 1))" if "k < length x" for k
    using that by (intro extend_in) simp_all
  have "(\<forall>k. 0 < k \<and> k < length x \<longrightarrow> \<not> lt (x ! k) (x ! (k - 1))) \<longleftrightarrow>
        (\<forall>k. 0 < k \<and> k < length x \<longrightarrow> \<not> ?lt (x ! k) (x ! (k - 1)))"
    using ext by auto
  also have "\<dots> \<longleftrightarrow> ascending ?lt x"
    by (rule adjacent_iff_ascending[OF swo_extend[OF assms]])
  also have "\<dots> \<longleftrightarrow> ascending lt x"
    by (rule ascending_extend) simp
  finally show ?thesis .
qed

lemma IsSorted_adjacent:
  "IsSorted ops x = Inr (\<forall>k. 0 < k \<and> k < length x \<longrightarrow> \<not> op_lt ops (x ! k) (x ! (k - 1)))"
  by (simp only: IsSorted_eq IsSortedFunc_adjacent)

lemma IsSorted_ascending:
  assumes "totally_ordered ops (set x)"
  shows "IsSorted ops x = Inr (ascending (op_lt ops) x)"
proof -
  have "strict_weak_order_on (op_lt ops) (set x)" using assms by (simp add: totally_ordered_def)
  then show ?thesis by (simp only: IsSorted_adjacent adjacent_iff_ascending_on)
qed

section \<open>Ascending sequences and bisection\<close>


subsection \<open>Ascending sequences\<close>

lemma ascending_Nil [simp]: "ascending lt []"
  by (simp add: ascending_def)

lemma ascending_single [simp]: "ascending lt [x]"
  by (simp add: ascending_def)

lemma ascending_append:
  "ascending lt (xs @ ys) \<longleftrightarrow>
     ascending lt xs \<and> ascending lt ys \<and> (\<forall>x\<in>set xs. \<forall>y\<in>set ys. \<not> lt y x)"
  by (simp add: ascending_def sorted_wrt_append)

lemma ascending_Cons:
  "ascending lt (x # xs) \<longleftrightarrow> (\<forall>y\<in>set xs. \<not> lt y x) \<and> ascending lt xs"
  by (simp add: ascending_def)

lemma ascending_successively:
  "strict_weak_order lt \<Longrightarrow> successively (\<lambda>a b. \<not> lt b a) xs \<longleftrightarrow> ascending lt xs"
  unfolding ascending_def by (rule successively_conv_sorted_wrt[OF swo_transp])

lemma ascending_rev_successively:
  assumes "strict_weak_order lt" and "successively (\<lambda>a b. \<not> lt a b) xs"
  shows "ascending lt (rev xs)"
proof -
  have "transp (\<lambda>a b. \<not> lt a b)"
    using swo_neg_trans[OF assms(1)] by (intro transpI) blast
  then have "sorted_wrt (\<lambda>a b. \<not> lt a b) xs"
    using assms(2) by (simp add: successively_conv_sorted_wrt)
  then show ?thesis by (simp add: ascending_def sorted_wrt_rev)
qed

text \<open>Elements that are pairwise equivalent are in ascending order, however arranged.\<close>

lemma ascending_all_equivalent:
  assumes swo: "strict_weak_order lt" and "\<forall>x\<in>set xs. \<not> lt x p \<and> \<not> lt p x"
  shows "ascending lt xs"
proof -
  have "\<not> lt y x" if "x \<in> set xs" "y \<in> set xs" for x y
    using swo_incomp_trans[OF swo, of y p x] that assms(2) by blast
  then show ?thesis
    unfolding ascending_def sorted_wrt_iff_nth_less by simp
qed

subsection \<open>Bisection on natural numbers\<close>

lemma bisect_threshold:
  assumes "i \<le> k" "k \<le> j" and "\<forall>h. i \<le> h \<and> h < k \<longrightarrow> \<not> p h" and "\<forall>h. k \<le> h \<and> h < j \<longrightarrow> p h"
  shows "bisect p i j = k"
  using assms
proof (induction p i j rule: bisect.induct)
  case (1 p i j)
  show ?case
  proof (cases "i < j")
    case False
    then show ?thesis using "1.prems" by (subst bisect.simps) simp
  next
    case True
    define h where "h = (i + j) div 2"
    have hb: "i \<le> h" "h < j" using True by (simp_all add: h_def)
    show ?thesis
    proof (cases "p h")
      case ph: False
      then have "h < k" using "1.prems"(4) hb by (meson not_le_imp_less)
      then have "bisect p (h + 1) j = k"
        using "1.IH"(1)[OF True h_def ph] "1.prems" hb by simp
      then show ?thesis using True ph by (subst bisect.simps) (simp add: h_def Let_def)
    next
      case ph: True
      then have "k \<le> h" using "1.prems"(3) hb by (meson not_le_imp_less)
      then have "bisect p i h = k"
        using "1.IH"(2)[OF True h_def] ph "1.prems" hb by simp
      then show ?thesis using True ph by (subst bisect.simps) (simp add: h_def Let_def)
    qed
  qed
qed

lemma bisect_takeWhile:
  assumes "\<forall>i j. i < j \<and> j < length xs \<and> P (xs ! i) \<longrightarrow> P (xs ! j)"
  shows "bisect (\<lambda>i. P (xs ! i)) 0 (length xs) = length (takeWhile (\<lambda>v. \<not> P v) xs)"
  using takeWhile_threshold[OF assms] by (intro bisect_threshold) simp_all

section \<open>Binary insertion sort\<close>

lemma mset_insertAt: "mset (insertAt ys pos x) = add_mset x (mset ys)"
proof -
  have "mset (take pos ys) + mset (drop pos ys) = mset ys"
    by (metis append_take_drop_id mset_append)
  then show ?thesis by (simp add: insertAt_def)
qed

lemma mset_binaryInsert: "mset (binaryInsert lt ys x) = add_mset x (mset ys)"
  unfolding binaryInsert_def by (rule mset_insertAt)

text \<open>On a sorted prefix the insertion point is behind the elements not greater than \<open>x\<close>.\<close>

lemma binaryInsert_sorted:
  assumes swo: "strict_weak_order lt" and asc: "ascending lt ys"
  shows "binaryInsert lt ys x = takeWhile (\<lambda>y. \<not> lt x y) ys @ x # dropWhile (\<lambda>y. \<not> lt x y) ys"
    and "\<forall>y\<in>set (dropWhile (\<lambda>y. \<not> lt x y) ys). lt x y"
proof -
  have mono: "\<forall>i j. i < j \<and> j < length ys \<and> lt x (ys ! i) \<longrightarrow> lt x (ys ! j)"
  proof (intro allI impI)
    fix i j assume h: "i < j \<and> j < length ys \<and> lt x (ys ! i)"
    then have "\<not> lt (ys ! j) (ys ! i)" using asc by (simp add: ascending_iff_nth)
    then show "lt x (ys ! j)" using swo_less_not_less_trans[OF swo, of x "ys ! i" "ys ! j"] h by blast
  qed
  define k where "k = length (takeWhile (\<lambda>y. \<not> lt x y) ys)"
  have pos: "bisect (\<lambda>i. lt x (ys ! i)) 0 (length ys) = k"
    unfolding k_def by (rule bisect_takeWhile[OF mono])
  have tk: "take k ys = takeWhile (\<lambda>y. \<not> lt x y) ys" and dr: "drop k ys = dropWhile (\<lambda>y. \<not> lt x y) ys"
    unfolding k_def by (rule takeWhile_eq_take[symmetric], rule dropWhile_eq_drop[symmetric])
  show "binaryInsert lt ys x = takeWhile (\<lambda>y. \<not> lt x y) ys @ x # dropWhile (\<lambda>y. \<not> lt x y) ys"
    by (simp add: binaryInsert_def insertAt_def pos tk dr)
  show "\<forall>y\<in>set (dropWhile (\<lambda>y. \<not> lt x y) ys). lt x y"
  proof (cases "dropWhile (\<lambda>y. \<not> lt x y) ys")
    case Nil
    show ?thesis unfolding Nil by simp
  next
    case (Cons h t)
    have xh: "lt x h"
      using hd_dropWhile[of "\<lambda>y. \<not> lt x y" ys] Cons by simp
    have "ascending lt (dropWhile (\<lambda>y. \<not> lt x y) ys)"
      using asc by (simp add: ascending_def)
    then have "\<forall>y\<in>set t. \<not> lt y h" using Cons by (simp add: ascending_Cons)
    then have "\<forall>y\<in>set t. lt x y"
      using swo_less_not_less_trans[OF swo xh] by blast
    then show ?thesis using Cons xh by simp
  qed
qed

lemma ascending_binaryInsert:
  assumes swo: "strict_weak_order lt" and asc: "ascending lt ys"
  shows "ascending lt (binaryInsert lt ys x)"
proof -
  let ?P = "\<lambda>y. \<not> lt x y"
  note bi = binaryInsert_sorted[OF swo asc, of x]
  have split: "ascending lt (takeWhile ?P ys) \<and> ascending lt (dropWhile ?P ys) \<and>
      (\<forall>a\<in>set (takeWhile ?P ys). \<forall>b\<in>set (dropWhile ?P ys). \<not> lt b a)"
    using asc ascending_append[of lt "takeWhile ?P ys" "dropWhile ?P ys"] by simp
  have lo: "\<forall>y\<in>set (takeWhile ?P ys). \<not> lt x y" by (auto dest: set_takeWhileD)
  have hi: "\<forall>y\<in>set (dropWhile ?P ys). \<not> lt y x" using bi(2) swo_asym[OF swo] by blast
  have c: "ascending lt (x # dropWhile ?P ys)"
    unfolding ascending_Cons using split hi by blast
  have d: "\<forall>a\<in>set (takeWhile ?P ys). \<forall>b\<in>set (x # dropWhile ?P ys). \<not> lt b a"
  proof (intro ballI)
    fix a b assume a: "a \<in> set (takeWhile ?P ys)" and b: "b \<in> set (x # dropWhile ?P ys)"
    from b have "b = x \<or> b \<in> set (dropWhile ?P ys)" by (simp only: set_simps insert_iff)
    then show "\<not> lt b a" using a split lo by blast
  qed
  show ?thesis
    unfolding bi(1) using ascending_append[of lt "takeWhile ?P ys" "x # dropWhile ?P ys"] split c d by blast
qed

lemma equivalent_trans:
  assumes "strict_weak_order lt" and "equivalent lt a b" and "equivalent lt b c"
  shows "equivalent lt a c"
proof -
  have "\<not> lt a c" using swo_incomp_trans[OF assms(1), of a b c] assms(2,3) by (simp add: equivalent_def)
  moreover have "\<not> lt c a" using swo_incomp_trans[OF assms(1), of c b a] assms(2,3) by (simp add: equivalent_def)
  ultimately show ?thesis by (simp add: equivalent_def)
qed

lemma equivalent_sym: "equivalent lt a b \<longleftrightarrow> equivalent lt b a"
  by (auto simp: equivalent_def)

text \<open>Stability: the new element goes behind the elements equivalent to it.\<close>

lemma filter_binaryInsert:
  assumes swo: "strict_weak_order lt" and asc: "ascending lt ys"
  shows "filter (equivalent lt a) (binaryInsert lt ys x) =
         filter (equivalent lt a) ys @ filter (equivalent lt a) [x]"
proof -
  let ?P = "\<lambda>y. \<not> lt x y"
  let ?E = "equivalent lt a"
  note bi = binaryInsert_sorted[OF swo asc, of x]
  have r: "filter ?E ys = filter ?E (takeWhile ?P ys) @ filter ?E (dropWhile ?P ys)"
    using filter_append[of ?E "takeWhile ?P ys" "dropWhile ?P ys"]
    by (simp only: takeWhile_dropWhile_id)
  have l: "filter ?E (binaryInsert lt ys x) =
           filter ?E (takeWhile ?P ys) @ filter ?E [x] @ filter ?E (dropWhile ?P ys)"
    by (subst bi(1)) simp
  show ?thesis
  proof (cases "equivalent lt a x")
    case False
    then have "filter ?E [x] = []" by simp
    then show ?thesis unfolding l r by simp
  next
    case True
    have "\<not> equivalent lt a y" if "y \<in> set (dropWhile ?P ys)" for y
    proof
      assume "equivalent lt a y"
      then have "\<not> lt x y"
        using swo_incomp_trans[OF swo, of x a y] True unfolding equivalent_def by blast
      then show False using bi(2) that by blast
    qed
    then have "filter ?E (dropWhile ?P ys) = []" by (simp only: filter_empty_conv) blast
    then show ?thesis unfolding l r by simp
  qed
qed

lemma foldl_binaryInsert:
  "mset (foldl (binaryInsert lt) acc xs) = mset acc + mset xs"
proof (induction xs arbitrary: acc)
  case Nil
  show ?case by simp
next
  case (Cons x xs)
  have "mset (foldl (binaryInsert lt) (binaryInsert lt acc x) xs) = mset (binaryInsert lt acc x) + mset xs"
    by (rule Cons.IH)
  also have "\<dots> = add_mset x (mset acc) + mset xs" by (simp only: mset_binaryInsert)
  also have "\<dots> = mset acc + mset (x # xs)" by simp
  finally show ?case by (simp only: foldl_Cons)
qed

lemma foldl_binaryInsert_sorted:
  assumes "strict_weak_order lt" and "ascending lt acc"
  shows "ascending lt (foldl (binaryInsert lt) acc xs) \<and>
         (\<forall>a. filter (equivalent lt a) (foldl (binaryInsert lt) acc xs) =
               filter (equivalent lt a) acc @ filter (equivalent lt a) xs)"
  using assms(2)
proof (induction xs arbitrary: acc)
  case Nil
  then show ?case by simp
next
  case (Cons x xs)
  have asc: "ascending lt (binaryInsert lt acc x)"
    by (rule ascending_binaryInsert[OF assms(1) Cons.prems])
  show ?case
    using Cons.IH[OF asc] filter_binaryInsert[OF assms(1) Cons.prems, of _ x] by simp
qed

lemma mset_insertionSort: "mset (insertionSort lt xs) = mset xs"
  by (simp add: insertionSort_def foldl_binaryInsert)

lemma ascending_insertionSort:
  assumes "strict_weak_order lt"
  shows "ascending lt (insertionSort lt xs)"
  unfolding insertionSort_def
  by (rule conjunct1[OF foldl_binaryInsert_sorted[OF assms ascending_Nil]])

lemma stable_insertionSort:
  assumes "strict_weak_order lt"
  shows "filter (equivalent lt a) (insertionSort lt xs) = filter (equivalent lt a) xs"
proof -
  have "filter (equivalent lt a) (foldl (binaryInsert lt) [] xs) =
        filter (equivalent lt a) [] @ filter (equivalent lt a) xs"
    using conjunct2[OF foldl_binaryInsert_sorted[OF assms ascending_Nil, of xs]] by (rule spec)
  then show ?thesis by (simp add: insertionSort_def)
qed

section \<open>Heapsort\<close>

lemma heapMset_meld: "heapMset (meld lt h1 h2) = heapMset h1 + heapMset h2"
  by (induction lt h1 h2 rule: meld.induct) simp_all

lemma isHeap_meld:
  "strict_weak_order lt \<Longrightarrow> isHeap lt h1 \<Longrightarrow> isHeap lt h2 \<Longrightarrow> isHeap lt (meld lt h1 h2)"
proof (induction lt h1 h2 rule: meld.induct)
  case (1 lt h)
  then show ?case by simp
next
  case (2 lt v va vb)
  then show ?case by simp
next
  case (3 lt l1 a1 r1 l2 a2 r2)
  have swo': "strict_weak_order lt" by (rule "3.prems"(1))
  have h1: "isHeap lt (Node l1 a1 r1)" by (rule "3.prems"(2))
  have h2: "isHeap lt (Node l2 a2 r2)" by (rule "3.prems"(3))
  show ?case
  proof (cases "lt a1 a2")
    case True
    have IH: "isHeap lt (meld lt (Node l1 a1 r1) r2)"
      using "3.IH"(1)[OF True swo' h1] h2 by simp
    have top: "\<not> lt a2 x" if "x \<in># heapMset (Node l1 a1 r1)" for x
    proof
      assume "lt a2 x"
      then have "lt a1 x" using swo_trans[OF swo' True] by blast
      moreover have "x = a1 \<or> x \<in># heapMset l1 + heapMset r1" using that by auto
      ultimately show False using h1 swo_irrefl[OF swo'] by auto
    qed
    show ?thesis
      using True IH top h2 by (auto simp: heapMset_meld)
  next
    case False
    have IH: "isHeap lt (meld lt r1 (Node l2 a2 r2))"
      using "3.IH"(2)[OF False swo' _ h2] h1 by simp
    have top: "\<not> lt a1 x" if "x \<in># heapMset (Node l2 a2 r2)" for x
    proof -
      have "x = a2 \<or> x \<in># heapMset l2 + heapMset r2" using that by auto
      then have "\<not> lt a2 x" using h2 swo_irrefl[OF swo'] by auto
      then show ?thesis using swo_neg_trans[OF swo' _ False] by blast
    qed
    show ?thesis
      using False IH top h1 by (auto simp: heapMset_meld)
  qed
qed


lemma heapMset_heapify: "heapMset (heapify lt xs) = mset xs"
  unfolding heapify_def by (induction xs) (simp_all add: heapMset_meld)

lemma isHeap_heapify: "strict_weak_order lt \<Longrightarrow> isHeap lt (heapify lt xs)"
  unfolding heapify_def by (induction xs) (simp_all add: isHeap_meld)

lemma mset_extractAll: "mset (extractAll lt h acc) = heapMset h + mset acc"
  by (induction lt h acc rule: extractAll.induct) (simp_all add: heapMset_meld)

lemma ascending_extractAll:
  "strict_weak_order lt \<Longrightarrow> isHeap lt h \<Longrightarrow> ascending lt acc \<Longrightarrow>
   (\<forall>x\<in>#heapMset h. \<forall>y\<in>set acc. \<not> lt y x) \<Longrightarrow> ascending lt (extractAll lt h acc)"
proof (induction lt h acc rule: extractAll.induct)
  case (1 lt acc)
  then show ?case by simp
next
  case (2 lt l a r acc)
  have swo: "strict_weak_order lt" by (rule "2.prems"(1))
  have hp: "isHeap lt (Node l a r)" by (rule "2.prems"(2))
  have lr: "\<forall>x\<in>#heapMset l + heapMset r. \<not> lt a x" using hp by simp
  have hm: "isHeap lt (meld lt l r)" using isHeap_meld[OF swo, of l r] hp by simp
  have below: "\<forall>x\<in>#heapMset (Node l a r). \<forall>y\<in>set acc. \<not> lt y x" by (rule "2.prems"(4))
  have asc: "ascending lt (a # acc)"
    unfolding ascending_Cons using "2.prems"(3) below by simp
  have cross: "\<forall>x\<in>#heapMset (meld lt l r). \<forall>y\<in>set (a # acc). \<not> lt y x"
  proof (intro ballI)
    fix x y assume x: "x \<in># heapMset (meld lt l r)" and y: "y \<in> set (a # acc)"
    have x': "x \<in># heapMset l + heapMset r" using x by (simp only: heapMset_meld)
    then have "x \<in># heapMset (Node l a r)" by simp
    moreover have "y = a \<or> y \<in> set acc" using y by simp
    ultimately show "\<not> lt y x" using lr x' below by blast
  qed
  show ?case
    using "2.IH"[OF swo hm asc cross] by simp
qed

lemma mset_heapSort: "mset (heapSort lt xs) = mset xs"
  by (simp add: heapSort_def mset_extractAll heapMset_heapify)

lemma ascending_heapSort: "strict_weak_order lt \<Longrightarrow> ascending lt (heapSort lt xs)"
  unfolding heapSort_def by (rule ascending_extractAll) (simp_all add: isHeap_heapify)

section \<open>The adaptive sort\<close>

lemma median3_cases: "median3 lt xs a b c = a \<or> median3 lt xs a b c = b \<or> median3 lt xs a b c = c"
  by (simp add: median3_def)

lemma choosePivot_less:
  assumes "\<not> length xs \<le> smallRange"
  shows "choosePivot lt xs < length xs"
proof -
  define n where "n = length xs"
  define q where "q = n div 4"
  have n: "12 < n" using assms by (simp add: smallRange_def n_def)
  have m1: "median3 lt xs 0 (n div 2) (n - 1) < n"
    using median3_cases[of lt xs 0 "n div 2" "n - 1"] n by auto
  have m2: "median3 lt xs (q - 1) q (q + 1) < n"
    using median3_cases[of lt xs "q - 1" q "q + 1"] n by (auto simp: q_def)
  have m3: "median3 lt xs (3 * q - 1) (3 * q) (3 * q + 1) < n"
    using median3_cases[of lt xs "3 * q - 1" "3 * q" "3 * q + 1"] n by (auto simp: q_def)
  have "choosePivot lt xs = median3 lt xs (median3 lt xs 0 (n div 2) (n - 1))
          (median3 lt xs (q - 1) q (q + 1)) (median3 lt xs (3 * q - 1) (3 * q) (3 * q + 1))"
    by (simp add: choosePivot_def Let_def n_def q_def)
  then show ?thesis
    using median3_cases[of lt xs "median3 lt xs 0 (n div 2) (n - 1)" "median3 lt xs (q - 1) q (q + 1)"
                "median3 lt xs (3 * q - 1) (3 * q) (3 * q + 1)"] m1 m2 m3
    by (auto simp: n_def)
qed

text \<open>
  The step of the adaptive sort on a range that is neither small nor found in order:
  the pivot, the elements to its left, those equal to it, and those to its right.
\<close>

lemma pdq_step:
  assumes "\<not> length xs \<le> smallRange" "limit \<noteq> 0" "scanHint lt xs = unknownHint"
  obtains pivot rest limit' where
    "mset xs = add_mset pivot (mset rest)"
    "length rest < length xs"
    "pdq lt limit xs =
       pdq lt limit' (filter (\<lambda>x. lt x pivot) (filter (\<lambda>x. \<not> lt pivot x) rest)) @
       filter (\<lambda>x. \<not> lt x pivot) (filter (\<lambda>x. \<not> lt pivot x) rest) @
       pivot # pdq lt limit' (filter (\<lambda>x. lt pivot x) rest)
     \<or> pdq lt limit xs =
       pdq lt limit' (filter (\<lambda>x. \<not> lt pivot x) rest) @
       pivot # pdq lt limit' (filter (\<lambda>x. lt pivot x) rest)"
proof -
  define p where "p = choosePivot lt xs"
  define pivot where "pivot = xs ! p"
  define rest where "rest = take p xs @ drop (Suc p) xs"
  define left where "left = filter (\<lambda>x. \<not> lt pivot x) rest"
  define right where "right = filter (\<lambda>x. lt pivot x) rest"
  define limit' where "limit' = (if unbalanced (length left) (length right) (length xs) then limit - 1 else limit)"
  have p: "p < length xs" unfolding p_def by (rule choosePivot_less[OF assms(1)])
  have "xs = take p xs @ pivot # drop (Suc p) xs"
    unfolding pivot_def using p by (simp add: id_take_nth_drop)
  then have "mset xs = mset (take p xs @ pivot # drop (Suc p) xs)" by simp
  then have m: "mset xs = add_mset pivot (mset rest)" by (simp add: rest_def)
  have l: "length rest < length xs" using p by (simp add: rest_def)
  have "pdq lt limit xs =
      (if manyEqual (length (filter (\<lambda>x. \<not> lt x pivot) left)) (length xs)
       then pdq lt limit' (filter (\<lambda>x. lt x pivot) left) @ filter (\<lambda>x. \<not> lt x pivot) left @ pivot # pdq lt limit' right
       else pdq lt limit' left @ pivot # pdq lt limit' right)"
    apply (subst pdq.simps)
    apply (simp only: assms if_False sortedHint.case Let_def)
    apply (simp only: p_def pivot_def rest_def left_def right_def limit'_def)
    done
  then have "pdq lt limit xs =
       pdq lt limit' (filter (\<lambda>x. lt x pivot) (filter (\<lambda>x. \<not> lt pivot x) rest)) @
       filter (\<lambda>x. \<not> lt x pivot) (filter (\<lambda>x. \<not> lt pivot x) rest) @
       pivot # pdq lt limit' (filter (\<lambda>x. lt pivot x) rest)
     \<or> pdq lt limit xs =
       pdq lt limit' (filter (\<lambda>x. \<not> lt pivot x) rest) @
       pivot # pdq lt limit' (filter (\<lambda>x. lt pivot x) rest)"
    unfolding left_def right_def by (simp split: if_splits)
  then show ?thesis using that[OF m l] by blast
qed


lemma pdq_small: "length xs \<le> smallRange \<Longrightarrow> pdq lt limit xs = insertionSort lt xs"
  by (subst pdq.simps) simp

lemma pdq_heap: "\<not> length xs \<le> smallRange \<Longrightarrow> pdq lt 0 xs = heapSort lt xs"
  by (subst pdq.simps) simp

lemma pdq_increasing:
  "\<not> length xs \<le> smallRange \<Longrightarrow> limit \<noteq> 0 \<Longrightarrow> scanHint lt xs = increasingHint \<Longrightarrow>
   pdq lt limit xs = xs"
  by (subst pdq.simps) simp

lemma pdq_decreasing:
  "\<not> length xs \<le> smallRange \<Longrightarrow> limit \<noteq> 0 \<Longrightarrow> scanHint lt xs = decreasingHint \<Longrightarrow>
   pdq lt limit xs = rev xs"
  by (subst pdq.simps) simp

lemma mset_filter_split: "mset (filter P xs) + mset (filter (\<lambda>x. \<not> P x) xs) = mset xs"
  by (induction xs) simp_all

lemma mset_pivot_swap: "A + add_mset p B = add_mset p (B + A)"
  by (simp add: ac_simps)

lemma mset_pdq: "mset (pdq lt limit xs) = mset xs"
proof (induction "length xs" arbitrary: xs limit rule: less_induct)
  case less
  consider (small) "length xs \<le> smallRange"
    | (heap) "\<not> length xs \<le> smallRange" "limit = 0"
    | (inc) "\<not> length xs \<le> smallRange" "limit \<noteq> 0" "scanHint lt xs = increasingHint"
    | (dec) "\<not> length xs \<le> smallRange" "limit \<noteq> 0" "scanHint lt xs = decreasingHint"
    | (part) "\<not> length xs \<le> smallRange" "limit \<noteq> 0" "scanHint lt xs = unknownHint"
    by (cases "scanHint lt xs") auto
  then show ?case
  proof cases
    case small
    then show ?thesis by (simp add: pdq_small mset_insertionSort)
  next
    case heap
    then show ?thesis by (simp add: pdq_heap mset_heapSort)
  next
    case inc
    then show ?thesis by (simp add: pdq_increasing)
  next
    case dec
    then show ?thesis by (simp add: pdq_decreasing)
  next
    case part
    obtain pivot rest limit' where
      m: "mset xs = add_mset pivot (mset rest)" and l: "length rest < length xs" and
      e: "pdq lt limit xs =
           pdq lt limit' (filter (\<lambda>x. lt x pivot) (filter (\<lambda>x. \<not> lt pivot x) rest)) @
           filter (\<lambda>x. \<not> lt x pivot) (filter (\<lambda>x. \<not> lt pivot x) rest) @
           pivot # pdq lt limit' (filter (\<lambda>x. lt pivot x) rest)
         \<or> pdq lt limit xs =
           pdq lt limit' (filter (\<lambda>x. \<not> lt pivot x) rest) @
           pivot # pdq lt limit' (filter (\<lambda>x. lt pivot x) rest)"
      by (rule pdq_step[OF part])
    let ?left = "filter (\<lambda>x. \<not> lt pivot x) rest"
    let ?right = "filter (\<lambda>x. lt pivot x) rest"
    have ll: "length ?left < length xs" using le_less_trans[OF length_filter_le l] .
    have lr: "length ?right < length xs" using le_less_trans[OF length_filter_le l] .
    have lll: "length (filter (\<lambda>x. lt x pivot) ?left) < length xs"
      using le_less_trans[OF length_filter_le ll] .
    have IHl: "mset (pdq lt limit' ?left) = mset ?left" by (rule less[OF ll])
    have IHr: "mset (pdq lt limit' ?right) = mset ?right" by (rule less[OF lr])
    have IHll: "mset (pdq lt limit' (filter (\<lambda>x. lt x pivot) ?left)) = mset (filter (\<lambda>x. lt x pivot) ?left)"
      by (rule less[OF lll])
    have s1: "mset ?right + mset ?left = mset rest"
      by (rule mset_filter_split)
    have s2: "mset (filter (\<lambda>x. lt x pivot) ?left) + mset (filter (\<lambda>x. \<not> lt x pivot) ?left) = mset ?left"
      by (rule mset_filter_split)
    from e show ?thesis
    proof
      assume "pdq lt limit xs =
           pdq lt limit' (filter (\<lambda>x. lt x pivot) ?left) @
           filter (\<lambda>x. \<not> lt x pivot) ?left @ pivot # pdq lt limit' ?right"
      then have "mset (pdq lt limit xs) =
          (mset (filter (\<lambda>x. lt x pivot) ?left) + mset (filter (\<lambda>x. \<not> lt x pivot) ?left)) +
          add_mset pivot (mset ?right)"
        by (simp only: mset_append mset.simps IHll IHr add.assoc)
      also have "\<dots> = mset ?left + add_mset pivot (mset ?right)" by (simp only: s2)
      also have "\<dots> = add_mset pivot (mset ?right + mset ?left)" by (rule mset_pivot_swap)
      also have "\<dots> = mset xs" by (simp only: s1 m)
      finally show ?thesis .
    next
      assume "pdq lt limit xs = pdq lt limit' ?left @ pivot # pdq lt limit' ?right"
      then have "mset (pdq lt limit xs) = mset ?left + add_mset pivot (mset ?right)"
        by (simp only: mset_append mset.simps IHl IHr)
      also have "\<dots> = add_mset pivot (mset ?right + mset ?left)" by (rule mset_pivot_swap)
      also have "\<dots> = mset xs" by (simp only: s1 m)
      finally show ?thesis .
    qed
  qed
qed


lemma set_pdq: "set (pdq lt limit xs) = set xs"
  using mset_pdq[of lt limit xs] by (rule mset_eq_setD)

text \<open>Two sorted sequences on either side of a pivot value are sorted together.\<close>

lemma ascending_around:
  assumes swo: "strict_weak_order lt" and "ascending lt ls" and "ascending lt ms"
    and l: "\<forall>x\<in>set ls. \<not> lt p x" and m: "\<forall>y\<in>set ms. \<not> lt y p"
  shows "ascending lt (ls @ ms)"
proof -
  have "\<not> lt y x" if "x \<in> set ls" "y \<in> set ms" for x y
    using swo_neg_trans[OF swo, of p x y] l m that by blast
  then show ?thesis using assms(2,3) unfolding ascending_append by blast
qed

lemma ascending_pivot:
  assumes swo: "strict_weak_order lt" and "ascending lt rs" and "\<forall>y\<in>set rs. \<not> lt y p"
  shows "ascending lt (p # rs)" and "\<forall>y\<in>set (p # rs). \<not> lt y p"
proof -
  show "ascending lt (p # rs)" unfolding ascending_Cons using assms(2,3) by blast
  show "\<forall>y\<in>set (p # rs). \<not> lt y p"
  proof
    fix y assume "y \<in> set (p # rs)"
    then have "y = p \<or> y \<in> set rs" by simp
    then show "\<not> lt y p" using assms(3) swo_irrefl[OF swo, of p] by blast
  qed
qed

lemma ascending_pdq:
  assumes swo: "strict_weak_order lt"
  shows "ascending lt (pdq lt limit xs)"
proof (induction "length xs" arbitrary: xs limit rule: less_induct)
  case less
  consider (small) "length xs \<le> smallRange"
    | (heap) "\<not> length xs \<le> smallRange" "limit = 0"
    | (inc) "\<not> length xs \<le> smallRange" "limit \<noteq> 0" "scanHint lt xs = increasingHint"
    | (dec) "\<not> length xs \<le> smallRange" "limit \<noteq> 0" "scanHint lt xs = decreasingHint"
    | (part) "\<not> length xs \<le> smallRange" "limit \<noteq> 0" "scanHint lt xs = unknownHint"
    by (cases "scanHint lt xs") auto
  then show ?case
  proof cases
    case small
    then show ?thesis by (simp add: pdq_small ascending_insertionSort[OF swo])
  next
    case heap
    then show ?thesis by (simp add: pdq_heap ascending_heapSort[OF swo])
  next
    case inc
    have "successively (\<lambda>a b. \<not> lt b a) xs"
      using inc(3) by (simp add: scanHint_def split: if_splits)
    then have "ascending lt xs" by (simp only: ascending_successively[OF swo])
    then show ?thesis using inc by (simp add: pdq_increasing)
  next
    case dec
    have "successively (\<lambda>a b. \<not> lt a b) xs"
      using dec(3) by (simp add: scanHint_def split: if_splits)
    then have "ascending lt (rev xs)" by (rule ascending_rev_successively[OF swo])
    then show ?thesis using dec by (simp add: pdq_decreasing)
  next
    case part
    obtain pivot rest limit' where
      m: "mset xs = add_mset pivot (mset rest)" and l: "length rest < length xs" and
      e: "pdq lt limit xs =
           pdq lt limit' (filter (\<lambda>x. lt x pivot) (filter (\<lambda>x. \<not> lt pivot x) rest)) @
           filter (\<lambda>x. \<not> lt x pivot) (filter (\<lambda>x. \<not> lt pivot x) rest) @
           pivot # pdq lt limit' (filter (\<lambda>x. lt pivot x) rest)
         \<or> pdq lt limit xs =
           pdq lt limit' (filter (\<lambda>x. \<not> lt pivot x) rest) @
           pivot # pdq lt limit' (filter (\<lambda>x. lt pivot x) rest)"
      by (rule pdq_step[OF part])
    let ?left = "filter (\<lambda>x. \<not> lt pivot x) rest"
    let ?right = "filter (\<lambda>x. lt pivot x) rest"
    let ?less = "filter (\<lambda>x. lt x pivot) ?left"
    let ?equal = "filter (\<lambda>x. \<not> lt x pivot) ?left"
    have ll: "length ?left < length xs" using le_less_trans[OF length_filter_le l] .
    have lr: "length ?right < length xs" using le_less_trans[OF length_filter_le l] .
    have lll: "length ?less < length xs" using le_less_trans[OF length_filter_le ll] .
    have al: "ascending lt (pdq lt limit' ?left)" by (rule less[OF ll])
    have ar: "ascending lt (pdq lt limit' ?right)" by (rule less[OF lr])
    have all: "ascending lt (pdq lt limit' ?less)" by (rule less[OF lll])
    have bl: "\<forall>x\<in>set (pdq lt limit' ?left). \<not> lt pivot x"
      unfolding set_pdq by simp
    have bll: "\<forall>x\<in>set (pdq lt limit' ?less). \<not> lt pivot x"
      unfolding set_pdq by simp
    have br: "\<forall>y\<in>set (pdq lt limit' ?right). \<not> lt y pivot"
    proof
      fix y assume "y \<in> set (pdq lt limit' ?right)"
      then have "lt pivot y" unfolding set_pdq by simp
      then show "\<not> lt y pivot" by (rule swo_asym[OF swo])
    qed
    note pr = ascending_pivot[OF swo ar br]
    have beq: "\<forall>x\<in>set ?equal. \<not> lt x pivot \<and> \<not> lt pivot x" by simp
    have aeq: "ascending lt ?equal" by (rule ascending_all_equivalent[OF swo beq])
    have beq': "\<forall>x\<in>set ?equal. \<not> lt pivot x" using beq by blast
    have mid: "ascending lt (?equal @ pivot # pdq lt limit' ?right)"
      by (rule ascending_around[OF swo aeq pr(1) beq' pr(2)])
    have bmid: "\<forall>y\<in>set (?equal @ pivot # pdq lt limit' ?right). \<not> lt y pivot"
    proof
      fix y assume "y \<in> set (?equal @ pivot # pdq lt limit' ?right)"
      then have "y \<in> set ?equal \<or> y \<in> set (pivot # pdq lt limit' ?right)"
        by (simp only: set_append Un_iff)
      then show "\<not> lt y pivot" using beq pr(2) by blast
    qed
    from e show ?thesis
    proof
      assume eq: "pdq lt limit xs = pdq lt limit' ?less @ ?equal @ pivot # pdq lt limit' ?right"
      show ?thesis unfolding eq by (rule ascending_around[OF swo all mid bll bmid])
    next
      assume eq: "pdq lt limit xs = pdq lt limit' ?left @ pivot # pdq lt limit' ?right"
      show ?thesis unfolding eq by (rule ascending_around[OF swo al pr(1) bl pr(2)])
    qed
  qed
qed

section \<open>The sorts depend on the comparison of the elements of the range only\<close>

lemma bisect_cong:
  "(\<And>h. i \<le> h \<Longrightarrow> h < j \<Longrightarrow> p h = q h) \<Longrightarrow> bisect p i j = bisect q i j"
proof (induction p i j rule: bisect.induct)
  case (1 p i j)
  show ?case
  proof (cases "i < j")
    case False
    then show ?thesis by (simp add: bisect.simps[of p i j] bisect.simps[of q i j])
  next
    case True
    define h where "h = (i + j) div 2"
    have hb: "i \<le> h" "h < j" using True by (simp_all add: h_def)
    have ph: "p h = q h" by (rule "1.prems"[OF hb])
    show ?thesis
    proof (cases "p h")
      case False
      have "bisect p (h + 1) j = bisect q (h + 1) j"
      proof (rule "1.IH"(1)[OF True h_def False])
        fix h' assume "h + 1 \<le> h'" "h' < j"
        then show "p h' = q h'" using "1.prems"[of h'] hb by simp
      qed
      then show ?thesis
        using True False ph
        by (simp add: bisect.simps[of p i j] bisect.simps[of q i j] Let_def h_def[symmetric])
    next
      case pt: True
      have "bisect p i h = bisect q i h"
      proof (rule "1.IH"(2)[OF True h_def])
        show "\<not> \<not> p h" using pt by simp
        fix h' assume "i \<le> h'" "h' < h"
        then show "p h' = q h'" using "1.prems"[of h'] hb by simp
      qed
      then show ?thesis
        using True pt ph
        by (simp add: bisect.simps[of p i j] bisect.simps[of q i j] Let_def h_def[symmetric])
    qed
  qed
qed

lemma binaryInsert_cong:
  assumes ag: "\<forall>x\<in>A. \<forall>y\<in>A. lt x y = lt' x y" and "x \<in> A" "set ys \<subseteq> A"
  shows "binaryInsert lt ys x = binaryInsert lt' ys x"
proof -
  have "bisect (\<lambda>i. lt x (ys ! i)) 0 (length ys) = bisect (\<lambda>i. lt' x (ys ! i)) 0 (length ys)"
  proof (rule bisect_cong)
    fix h assume "h < length ys"
    then have "ys ! h \<in> A" using assms(3) nth_mem by blast
    then show "lt x (ys ! h) = lt' x (ys ! h)" using ag assms(2) by blast
  qed
  then show ?thesis by (simp only: binaryInsert_def)
qed

lemma set_binaryInsert: "set (binaryInsert lt ys x) = insert x (set ys)"
proof -
  have "set_mset (mset (binaryInsert lt ys x)) = set_mset (add_mset x (mset ys))"
    by (simp only: mset_binaryInsert)
  then show ?thesis by simp
qed

lemma foldl_binaryInsert_cong:
  assumes ag: "\<forall>x\<in>A. \<forall>y\<in>A. lt x y = lt' x y"
  shows "set acc \<subseteq> A \<Longrightarrow> set xs \<subseteq> A \<Longrightarrow>
         foldl (binaryInsert lt) acc xs = foldl (binaryInsert lt') acc xs"
proof (induction xs arbitrary: acc)
  case Nil
  show ?case by simp
next
  case (Cons x xs)
  have x: "x \<in> A" and xs: "set xs \<subseteq> A" using Cons.prems(2) by simp_all
  have e: "binaryInsert lt acc x = binaryInsert lt' acc x"
    by (rule binaryInsert_cong[OF ag x Cons.prems(1)])
  have "set (binaryInsert lt acc x) \<subseteq> A"
    unfolding set_binaryInsert using x Cons.prems(1) by simp
  then have "foldl (binaryInsert lt) (binaryInsert lt acc x) xs =
             foldl (binaryInsert lt') (binaryInsert lt acc x) xs"
    using xs by (rule Cons.IH)
  then show ?case by (simp only: foldl_Cons e)
qed

lemma insertionSort_cong:
  assumes "\<forall>x\<in>A. \<forall>y\<in>A. lt x y = lt' x y" and "set xs \<subseteq> A"
  shows "insertionSort lt xs = insertionSort lt' xs"
  unfolding insertionSort_def by (rule foldl_binaryInsert_cong[OF assms(1) _ assms(2)]) simp_all

lemma meld_cong:
  "\<forall>x\<in>A. \<forall>y\<in>A. lt x y = lt' x y \<Longrightarrow>
   set_mset (heapMset h1) \<subseteq> A \<Longrightarrow> set_mset (heapMset h2) \<subseteq> A \<Longrightarrow>
   meld lt h1 h2 = meld lt' h1 h2"
proof (induction lt h1 h2 rule: meld.induct)
  case (1 lt h)
  show ?case by simp
next
  case (2 lt v va vb)
  show ?case by simp
next
  case (3 lt l1 a1 r1 l2 a2 r2)
  have ag: "\<forall>x\<in>A. \<forall>y\<in>A. lt x y = lt' x y" by (rule "3.prems"(1))
  have s1: "set_mset (heapMset (Node l1 a1 r1)) \<subseteq> A" by (rule "3.prems"(2))
  have s2: "set_mset (heapMset (Node l2 a2 r2)) \<subseteq> A" by (rule "3.prems"(3))
  have a: "a1 \<in> A" "a2 \<in> A" using s1 s2 by simp_all
  have c: "lt a1 a2 = lt' a1 a2" using ag a by blast
  have r2: "set_mset (heapMset r2) \<subseteq> A" using s2 by simp
  have r1: "set_mset (heapMset r1) \<subseteq> A" using s1 by simp
  show ?case
  proof (cases "lt a1 a2")
    case True
    have "meld lt (Node l1 a1 r1) r2 = meld lt' (Node l1 a1 r1) r2"
      using "3.IH"(1)[OF True ag s1 r2] by blast
    then show ?thesis using True c by simp
  next
    case False
    have "meld lt r1 (Node l2 a2 r2) = meld lt' r1 (Node l2 a2 r2)"
      using "3.IH"(2)[OF False ag r1 s2] by blast
    then show ?thesis using False c by simp
  qed
qed

lemma heapify_cong:
  assumes ag: "\<forall>x\<in>A. \<forall>y\<in>A. lt x y = lt' x y"
  shows "set xs \<subseteq> A \<Longrightarrow> heapify lt xs = heapify lt' xs"
proof (induction xs)
  case Nil
  show ?case by (simp add: heapify_def)
next
  case (Cons x xs)
  have IH: "heapify lt xs = heapify lt' xs" using Cons by simp
  have "meld lt (Node Empty x Empty) (heapify lt' xs) = meld lt' (Node Empty x Empty) (heapify lt' xs)"
  proof (rule meld_cong[OF ag])
    show "set_mset (heapMset (Node Empty x Empty)) \<subseteq> A" using Cons.prems by simp
    show "set_mset (heapMset (heapify lt' xs)) \<subseteq> A" using Cons.prems by (simp add: heapMset_heapify)
  qed
  moreover have "heapify lt (x # xs) = meld lt (Node Empty x Empty) (heapify lt xs)"
    by (simp add: heapify_def)
  moreover have "heapify lt' (x # xs) = meld lt' (Node Empty x Empty) (heapify lt' xs)"
    by (simp add: heapify_def)
  ultimately show ?case by (simp only: IH)
qed

lemma extractAll_cong:
  "\<forall>x\<in>A. \<forall>y\<in>A. lt x y = lt' x y \<Longrightarrow> set_mset (heapMset h) \<subseteq> A \<Longrightarrow>
   extractAll lt h acc = extractAll lt' h acc"
proof (induction lt h acc rule: extractAll.induct)
  case (1 lt acc)
  show ?case by simp
next
  case (2 lt l a r acc)
  have ag: "\<forall>x\<in>A. \<forall>y\<in>A. lt x y = lt' x y" by (rule "2.prems"(1))
  have s: "set_mset (heapMset (Node l a r)) \<subseteq> A" by (rule "2.prems"(2))
  have sl: "set_mset (heapMset l) \<subseteq> A" and sr: "set_mset (heapMset r) \<subseteq> A" using s by simp_all
  have m: "meld lt l r = meld lt' l r" by (rule meld_cong[OF ag sl sr])
  have "set_mset (heapMset (meld lt l r)) \<subseteq> A" using sl sr by (simp add: heapMset_meld)
  then have "extractAll lt (meld lt l r) (a # acc) = extractAll lt' (meld lt l r) (a # acc)"
    using "2.IH"[OF ag] by blast
  then show ?case by (simp add: m)
qed

lemma heapSort_cong:
  assumes "\<forall>x\<in>A. \<forall>y\<in>A. lt x y = lt' x y" and "set xs \<subseteq> A"
  shows "heapSort lt xs = heapSort lt' xs"
proof -
  have "set_mset (heapMset (heapify lt' xs)) \<subseteq> A" using assms(2) by (simp add: heapMset_heapify)
  then have "extractAll lt (heapify lt' xs) [] = extractAll lt' (heapify lt' xs) []"
    by (rule extractAll_cong[OF assms(1)])
  then show ?thesis by (simp only: heapSort_def heapify_cong[OF assms])
qed

lemma scanHint_cong:
  assumes ag: "\<forall>x\<in>A. \<forall>y\<in>A. lt x y = lt' x y" and sub: "set xs \<subseteq> A"
  shows "scanHint lt xs = scanHint lt' xs"
proof -
  have 1: "successively (\<lambda>a b. \<not> lt b a) xs = successively (\<lambda>a b. \<not> lt' b a) xs"
    by (rule successively_cong) (use ag sub in blast, rule refl)
  have 2: "successively (\<lambda>a b. \<not> lt a b) xs = successively (\<lambda>a b. \<not> lt' a b) xs"
    by (rule successively_cong) (use ag sub in blast, rule refl)
  show ?thesis by (simp only: scanHint_def 1 2)
qed

lemma median3_cong:
  assumes ag: "\<forall>x\<in>A. \<forall>y\<in>A. lt x y = lt' x y" and sub: "set xs \<subseteq> A"
    and "a < length xs" "b < length xs" "c < length xs"
  shows "median3 lt xs a b c = median3 lt' xs a b c"
proof -
  have m: "xs ! a \<in> A" "xs ! b \<in> A" "xs ! c \<in> A" using assms(3-5) sub nth_mem by blast+
  have "lt (xs ! a) (xs ! b) = lt' (xs ! a) (xs ! b)" "lt (xs ! b) (xs ! c) = lt' (xs ! b) (xs ! c)"
       "lt (xs ! a) (xs ! c) = lt' (xs ! a) (xs ! c)"
    using ag m by blast+
  then show ?thesis by (simp only: median3_def)
qed

lemma median3_less:
  "a < n \<Longrightarrow> b < n \<Longrightarrow> c < n \<Longrightarrow> median3 lt xs a b c < n"
  using median3_cases[of lt xs a b c] by auto

lemma choosePivot_cong:
  assumes ag: "\<forall>x\<in>A. \<forall>y\<in>A. lt x y = lt' x y" and sub: "set xs \<subseteq> A"
    and big: "\<not> length xs \<le> smallRange"
  shows "choosePivot lt xs = choosePivot lt' xs"
proof -
  define n where "n = length xs"
  define q where "q = n div 4"
  have n: "12 < n" using big by (simp add: smallRange_def n_def)
  have i: "0 < n" "n div 2 < n" "n - 1 < n" "q - 1 < n" "q < n" "q + 1 < n"
    "3 * q - 1 < n" "3 * q < n" "3 * q + 1 < n"
    using n by (simp_all add: q_def)
  note mc = median3_cong[OF ag sub, unfolded n_def[symmetric]]
  have e1: "median3 lt xs 0 (n div 2) (n - 1) = median3 lt' xs 0 (n div 2) (n - 1)"
    by (rule mc[OF i(1) i(2) i(3)])
  have e2: "median3 lt xs (q - 1) q (q + 1) = median3 lt' xs (q - 1) q (q + 1)"
    by (rule mc[OF i(4) i(5) i(6)])
  have e3: "median3 lt xs (3 * q - 1) (3 * q) (3 * q + 1) = median3 lt' xs (3 * q - 1) (3 * q) (3 * q + 1)"
    by (rule mc[OF i(7) i(8) i(9)])
  have l1: "median3 lt' xs 0 (n div 2) (n - 1) < n" by (rule median3_less[OF i(1) i(2) i(3)])
  have l2: "median3 lt' xs (q - 1) q (q + 1) < n" by (rule median3_less[OF i(4) i(5) i(6)])
  have l3: "median3 lt' xs (3 * q - 1) (3 * q) (3 * q + 1) < n" by (rule median3_less[OF i(7) i(8) i(9)])
  have "median3 lt xs (median3 lt' xs 0 (n div 2) (n - 1)) (median3 lt' xs (q - 1) q (q + 1))
          (median3 lt' xs (3 * q - 1) (3 * q) (3 * q + 1)) =
        median3 lt' xs (median3 lt' xs 0 (n div 2) (n - 1)) (median3 lt' xs (q - 1) q (q + 1))
          (median3 lt' xs (3 * q - 1) (3 * q) (3 * q + 1))"
    by (rule mc[OF l1 l2 l3])
  then show ?thesis
    by (simp only: choosePivot_def Let_def n_def[symmetric] q_def[symmetric] e1 e2 e3)
qed


lemma pdq_cong:
  assumes ag: "\<forall>x\<in>A. \<forall>y\<in>A. lt x y = lt' x y"
  shows "set xs \<subseteq> A \<Longrightarrow> pdq lt limit xs = pdq lt' limit xs"
proof (induction "length xs" arbitrary: xs limit rule: less_induct)
  case less
  have sub: "set xs \<subseteq> A" by (rule less.prems)
  have sc: "scanHint lt' xs = scanHint lt xs" by (rule scanHint_cong[OF ag sub, symmetric])
  consider (small) "length xs \<le> smallRange"
    | (heap) "\<not> length xs \<le> smallRange" "limit = 0"
    | (inc) "\<not> length xs \<le> smallRange" "limit \<noteq> 0" "scanHint lt xs = increasingHint"
    | (dec) "\<not> length xs \<le> smallRange" "limit \<noteq> 0" "scanHint lt xs = decreasingHint"
    | (part) "\<not> length xs \<le> smallRange" "limit \<noteq> 0" "scanHint lt xs = unknownHint"
    by (cases "scanHint lt xs") auto
  then show ?case
  proof cases
    case small
    show ?thesis
      unfolding pdq_small[OF small] by (rule insertionSort_cong[OF ag sub])
  next
    case heap
    show ?thesis
      unfolding heap(2) pdq_heap[OF heap(1)] by (rule heapSort_cong[OF ag sub])
  next
    case inc
    have "scanHint lt' xs = increasingHint" using inc(3) sc by simp
    then show ?thesis
      unfolding pdq_increasing[OF inc] using pdq_increasing[OF inc(1,2), of lt'] by simp
  next
    case dec
    have "scanHint lt' xs = decreasingHint" using dec(3) sc by simp
    then show ?thesis
      unfolding pdq_decreasing[OF dec] using pdq_decreasing[OF dec(1,2), of lt'] by simp
  next
    case part
    define p where "p = choosePivot lt xs"
    define pivot where "pivot = xs ! p"
    define rest where "rest = take p xs @ drop (Suc p) xs"
    define left where "left = filter (\<lambda>x. \<not> lt pivot x) rest"
    define right where "right = filter (\<lambda>x. lt pivot x) rest"
    define equal where "equal = filter (\<lambda>x. \<not> lt x pivot) left"
    define smaller where "smaller = filter (\<lambda>x. lt x pivot) left"
    define limit' where "limit' = (if unbalanced (length left) (length right) (length xs) then limit - 1 else limit)"
    have p: "p < length xs" unfolding p_def by (rule choosePivot_less[OF part(1)])
    have pv: "pivot \<in> A" unfolding pivot_def using p sub nth_mem by blast
    have "set rest \<subseteq> set xs"
      unfolding rest_def using set_take_subset[of p xs] set_drop_subset[of "Suc p" xs] by auto
    then have rs: "set rest \<subseteq> A" using sub by blast
    have ls: "set left \<subseteq> A" unfolding left_def using rs by auto
    have rl: "length rest < length xs" using p by (simp add: rest_def)
    have ll: "length left < length xs" unfolding left_def using le_less_trans[OF length_filter_le rl] .
    have lr: "length right < length xs" unfolding right_def using le_less_trans[OF length_filter_le rl] .
    have lsm: "length smaller < length xs" unfolding smaller_def using le_less_trans[OF length_filter_le ll] .
    have c1: "choosePivot lt' xs = p" unfolding p_def by (rule choosePivot_cong[OF ag sub part(1), symmetric])
    have c2: "filter (\<lambda>x. \<not> lt' pivot x) rest = left"
      unfolding left_def by (rule filter_cong[OF refl]) (use ag rs pv in blast)
    have c3: "filter (\<lambda>x. lt' pivot x) rest = right"
      unfolding right_def by (rule filter_cong[OF refl]) (use ag rs pv in blast)
    have c4: "filter (\<lambda>x. \<not> lt' x pivot) left = equal"
      unfolding equal_def by (rule filter_cong[OF refl]) (use ag ls pv in blast)
    have c5: "filter (\<lambda>x. lt' x pivot) left = smaller"
      unfolding smaller_def by (rule filter_cong[OF refl]) (use ag ls pv in blast)
    have i1: "pdq lt limit' left = pdq lt' limit' left" by (rule less.hyps[OF ll ls])
    have i2: "pdq lt limit' right = pdq lt' limit' right"
      by (rule less.hyps[OF lr]) (use rs in \<open>auto simp: right_def\<close>)
    have i3: "pdq lt limit' smaller = pdq lt' limit' smaller"
      by (rule less.hyps[OF lsm]) (use ls in \<open>auto simp: smaller_def\<close>)
    have e1: "pdq lt limit xs =
        (if manyEqual (length equal) (length xs)
         then pdq lt limit' smaller @ equal @ pivot # pdq lt limit' right
         else pdq lt limit' left @ pivot # pdq lt limit' right)"
      apply (subst pdq.simps)
      apply (simp only: part if_False sortedHint.case Let_def)
      apply (simp only: p_def pivot_def rest_def left_def right_def equal_def smaller_def limit'_def)
      done
    have part': "\<not> length xs \<le> smallRange" "limit \<noteq> 0" "scanHint lt' xs = unknownHint"
      using part sc by simp_all
    have e2: "pdq lt' limit xs =
        (if manyEqual (length equal) (length xs)
         then pdq lt' limit' smaller @ equal @ pivot # pdq lt' limit' right
         else pdq lt' limit' left @ pivot # pdq lt' limit' right)"
      apply (subst pdq.simps)
      apply (simp only: part' if_False sortedHint.case Let_def c1)
      apply (simp only: pivot_def[symmetric])
      apply (simp only: rest_def[symmetric])
      apply (simp only: c2 c3)
      apply (simp only: c4 c5 limit'_def)
      done
    show ?thesis unfolding e1 e2 by (simp only: i1 i2 i3)
  qed
qed

text \<open>So the adaptive sort sorts when the comparison is a strict weak ordering of the elements of the range.\<close>

lemma ascending_pdq_on:
  assumes swo: "strict_weak_order_on lt A" and sub: "set xs \<subseteq> A"
  shows "ascending lt (pdq lt limit xs)"
proof -
  have ag: "\<forall>x\<in>A. \<forall>y\<in>A. lt x y = extend_order lt A x y"
    by (simp add: extend_in)
  have e: "pdq lt limit xs = pdq (extend_order lt A) limit xs"
    by (rule pdq_cong[OF ag sub])
  have "ascending (extend_order lt A) (pdq (extend_order lt A) limit xs)"
    by (rule ascending_pdq[OF swo_extend[OF swo]])
  moreover have "set (pdq (extend_order lt A) limit xs) \<subseteq> A"
    unfolding set_pdq by (rule sub)
  ultimately show ?thesis unfolding e by (simp only: ascending_extend)
qed
section \<open>Slices in memory\<close>

lemma length_elems: "valid h x \<Longrightarrow> length (elems h x) = len x"
  by (cases x) auto

lemma length_store [simp]: "length (store h x ys) = length h"
  by (cases x) simp_all

lemma elems_store:
  assumes "valid h x" and "length ys = len x"
  shows "elems (store h x ys) x = ys"
proof (cases x)
  case NilSlice
  then show ?thesis using assms by simp
next
  case (Slice a off n)
  then have a: "a < length h" and b: "off + n \<le> length (h ! a)" and n: "length ys = n"
    using assms by simp_all
  have "length (take off (h ! a)) = off" using b by simp
  then have "take n (drop off (take off (h ! a) @ ys @ drop (off + n) (h ! a))) = ys"
    using n by simp
  then show ?thesis using Slice a by simp
qed

lemma pdqsortLessFunc_whole: "pdqsortLessFunc data 0 (length data) limit lt = pdq lt limit data"
  by (simp add: pdqsortLessFunc_def)

lemma elems_SortFunc:
  assumes "valid h x"
  shows "elems (SortFunc lt h x) x = pdq lt (bits_Len (len x)) (elems h x)"
proof -
  have n: "len x = length (elems h x)" using length_elems[OF assms] by simp
  have e: "pdqsortLessFunc (elems h x) 0 (len x) (bits_Len (len x)) lt = pdq lt (bits_Len (len x)) (elems h x)"
    unfolding n by (rule pdqsortLessFunc_whole)
  have "length (pdq lt (bits_Len (len x)) (elems h x)) = len x"
    using mset_eq_length[OF mset_pdq[of lt "bits_Len (len x)" "elems h x"]] n by simp
  then show ?thesis
    unfolding SortFunc_def Let_def e by (rule elems_store[OF assms])
qed

lemma elems_Sort:
  assumes "valid h x"
  shows "elems (Sort ops h x) x = pdq (op_lt ops) (bits_Len (len x)) (elems h x)"
proof -
  have "Sort ops h x = SortFunc (op_lt ops) h x"
    by (simp add: Sort_def SortFunc_def pdqsortOrdered_def)
  then show ?thesis using elems_SortFunc[OF assms] by simp
qed


subsection \<open>\<open>Clone\<close> and the sorts of a clone\<close>








section \<open>The stable sorter\<close>

subsection \<open>The rotation merge\<close>

lemma rotationMerge_Nil [simp]: "rotationMerge lt [] right = right" "rotationMerge lt left [] = left"
  by (simp_all add: rotationMerge.simps[of lt "[]" right] rotationMerge.simps[of lt left "[]"])

lemma rotationMerge_step:
  assumes "left \<noteq> []" "right \<noteq> []"
  shows "rotationMerge lt left right =
     rotationMerge lt (take (length left div 2) left)
       (take (bisect (\<lambda>i. \<not> lt (right ! i) (left ! (length left div 2))) 0 (length right)) right) @
     left ! (length left div 2) #
     rotationMerge lt (drop (Suc (length left div 2)) left)
       (drop (bisect (\<lambda>i. \<not> lt (right ! i) (left ! (length left div 2))) 0 (length right)) right)"
  by (subst rotationMerge.simps) (simp only: assms if_False Let_def)

lemma mset_merge_swap:
  "(A + B) + add_mset x (C + D) = (A + add_mset x C) + (B + D)"
  by (simp add: ac_simps)

lemma mset_rotationMerge: "mset (rotationMerge lt left right) = mset left + mset right"
proof (induction "length left" arbitrary: left right rule: less_induct)
  case less
  show ?case
  proof (cases "left = [] \<or> right = []")
    case True
    then show ?thesis by auto
  next
    case False
    then have ne: "left \<noteq> []" "right \<noteq> []" by simp_all
    define m where "m = length left div 2"
    define k where "k = bisect (\<lambda>i. \<not> lt (right ! i) (left ! m)) 0 (length right)"
    have m: "m < length left" using ne by (simp add: m_def)
    have l1: "length (take m left) < length left" using m by simp
    have l2: "length (drop (Suc m) left) < length left" using m by simp
    have e: "rotationMerge lt left right =
        rotationMerge lt (take m left) (take k right) @ left ! m # rotationMerge lt (drop (Suc m) left) (drop k right)"
      unfolding m_def k_def by (rule rotationMerge_step[OF ne])
    have "mset left = mset (take m left @ left ! m # drop (Suc m) left)"
      using m by (simp only: id_take_nth_drop[symmetric])
    then have ml: "mset left = mset (take m left) + add_mset (left ! m) (mset (drop (Suc m) left))"
      by simp
    have "mset right = mset (take k right @ drop k right)" by simp
    then have mr: "mset right = mset (take k right) + mset (drop k right)"
      by (simp only: mset_append)
    have "mset (rotationMerge lt left right) =
        (mset (take m left) + mset (take k right)) +
        add_mset (left ! m) (mset (drop (Suc m) left) + mset (drop k right))"
      unfolding e by (simp only: mset_append mset.simps less.hyps[OF l1] less.hyps[OF l2])
    also have "\<dots> = (mset (take m left) + add_mset (left ! m) (mset (drop (Suc m) left))) +
        (mset (take k right) + mset (drop k right))"
      by (rule mset_merge_swap)
    finally show ?thesis by (simp only: ml[symmetric] mr[symmetric])
  qed
qed


lemma set_rotationMerge: "set (rotationMerge lt left right) = set left \<union> set right"
proof -
  have "set_mset (mset (rotationMerge lt left right)) = set_mset (mset left + mset right)"
    by (simp only: mset_rotationMerge)
  then show ?thesis by simp
qed

text \<open>In a sorted run, the elements behind those less than \<open>x\<close> are not less than \<open>x\<close>.\<close>

lemma ascending_dropWhile_less:
  assumes swo: "strict_weak_order lt" and asc: "ascending lt ys"
  shows "\<forall>y\<in>set (dropWhile (\<lambda>v. lt v x) ys). \<not> lt y x"
proof (cases "dropWhile (\<lambda>v. lt v x) ys")
  case Nil
  show ?thesis unfolding Nil by simp
next
  case (Cons h t)
  have hx: "\<not> lt h x"
    using hd_dropWhile[of "\<lambda>v. lt v x" ys] Cons by simp
  have "ascending lt (dropWhile (\<lambda>v. lt v x) ys)"
    using asc by (simp add: ascending_def sorted_wrt_dropWhile)
  then have "\<forall>y\<in>set t. \<not> lt y h" unfolding Cons ascending_Cons by blast
  then have "\<forall>y\<in>set t. \<not> lt y x"
    using swo_neg_trans[OF swo hx] by blast
  then show ?thesis unfolding Cons using hx by simp
qed

lemma bisect_not_less:
  assumes swo: "strict_weak_order lt" and asc: "ascending lt ys"
  shows "bisect (\<lambda>i. \<not> lt (ys ! i) x) 0 (length ys) = length (takeWhile (\<lambda>v. lt v x) ys)"
proof -
  have "bisect (\<lambda>i. \<not> lt (ys ! i) x) 0 (length ys) = length (takeWhile (\<lambda>v. \<not> \<not> lt v x) ys)"
    by (rule bisect_takeWhile[OF ascending_not_less_mono[OF swo asc]])
  then show ?thesis by simp
qed

lemma rotationMerge_sorted:
  assumes swo: "strict_weak_order lt"
  shows "ascending lt left \<Longrightarrow> ascending lt right \<Longrightarrow>
         ascending lt (rotationMerge lt left right) \<and>
         (\<forall>a. filter (equivalent lt a) (rotationMerge lt left right) =
              filter (equivalent lt a) left @ filter (equivalent lt a) right)"
proof (induction "length left" arbitrary: left right rule: less_induct)
  case less
  have al: "ascending lt left" and ar: "ascending lt right" by (rule less.prems)+
  show ?case
  proof (cases "left = [] \<or> right = []")
    case True
    then show ?thesis using al ar by auto
  next
    case False
    then have ne: "left \<noteq> []" "right \<noteq> []" by simp_all
    define m where "m = length left div 2"
    define x where "x = left ! m"
    define k where "k = bisect (\<lambda>i. \<not> lt (right ! i) x) 0 (length right)"
    define l1 where "l1 = take m left"
    define l2 where "l2 = drop (Suc m) left"
    define r1 where "r1 = take k right"
    define r2 where "r2 = drop k right"
    have m: "m < length left" using ne by (simp add: m_def)
    have len1: "length l1 < length left" unfolding l1_def using m by simp
    have len2: "length l2 < length left" unfolding l2_def using m by simp
    have e: "rotationMerge lt left right = rotationMerge lt l1 r1 @ x # rotationMerge lt l2 r2"
      unfolding l1_def l2_def r1_def r2_def k_def x_def m_def by (rule rotationMerge_step[OF ne])
    have left: "left = l1 @ x # l2"
      unfolding l1_def l2_def x_def using m by (rule id_take_nth_drop)
    have right: "right = r1 @ r2" unfolding r1_def r2_def by simp
    have kk: "k = length (takeWhile (\<lambda>v. lt v x) right)"
      unfolding k_def by (rule bisect_not_less[OF swo ar])
    have r1': "r1 = takeWhile (\<lambda>v. lt v x) right"
      unfolding r1_def kk by (rule takeWhile_eq_take[symmetric])
    have r2': "r2 = dropWhile (\<lambda>v. lt v x) right"
      unfolding r2_def kk by (rule dropWhile_eq_drop[symmetric])
    have r1x: "\<forall>v\<in>set r1. lt v x" unfolding r1' by (auto dest: set_takeWhileD)
    have r2x: "\<forall>v\<in>set r2. \<not> lt v x" unfolding r2' by (rule ascending_dropWhile_less[OF swo ar])
    have al': "ascending lt l1 \<and> ascending lt (x # l2) \<and> (\<forall>a\<in>set l1. \<forall>b\<in>set (x # l2). \<not> lt b a)"
      using al unfolding left ascending_append .
    have al1: "ascending lt l1" using al' by blast
    have al2: "ascending lt l2" using al' unfolding ascending_Cons by blast
    have l1x: "\<forall>v\<in>set l1. \<not> lt x v" using al' by simp
    have l2x: "\<forall>v\<in>set l2. \<not> lt v x" using al' unfolding ascending_Cons by blast
    have ar': "ascending lt r1 \<and> ascending lt r2"
      using ar unfolding right ascending_append by blast
    have ar1: "ascending lt r1" and ar2: "ascending lt r2" using ar' by blast+
    note IH1 = less.hyps[OF len1 al1 ar1]
    note IH2 = less.hyps[OF len2 al2 ar2]
    have A: "ascending lt (rotationMerge lt l1 r1)" using IH1 by blast
    have B: "ascending lt (rotationMerge lt l2 r2)" using IH2 by blast
    have Ax: "\<forall>v\<in>set (rotationMerge lt l1 r1). \<not> lt x v"
      unfolding set_rotationMerge using l1x r1x swo_asym[OF swo] by blast
    have Bx: "\<forall>v\<in>set (rotationMerge lt l2 r2). \<not> lt v x"
      unfolding set_rotationMerge using l2x r2x by blast
    note pv = ascending_pivot[OF swo B Bx]
    have asc: "ascending lt (rotationMerge lt left right)"
      unfolding e by (rule ascending_around[OF swo A pv(1) Ax pv(2)])
    have stab: "filter (equivalent lt a) (rotationMerge lt left right) =
                filter (equivalent lt a) left @ filter (equivalent lt a) right" for a
    proof -
      let ?E = "equivalent lt a"
      have f1: "filter ?E (rotationMerge lt l1 r1) = filter ?E l1 @ filter ?E r1"
        using IH1 by blast
      have f2: "filter ?E (rotationMerge lt l2 r2) = filter ?E l2 @ filter ?E r2"
        using IH2 by blast
      have lhs: "filter ?E (rotationMerge lt left right) =
          filter ?E l1 @ filter ?E r1 @ filter ?E (x # l2) @ filter ?E r2"
        unfolding e by (simp add: f1 f2)
      have rhs: "filter ?E left @ filter ?E right =
          filter ?E l1 @ filter ?E (x # l2) @ filter ?E r1 @ filter ?E r2"
        unfolding left right by simp
      have comm: "filter ?E r1 @ filter ?E (x # l2) = filter ?E (x # l2) @ filter ?E r1"
      proof (cases "filter ?E r1 = []")
        case True
        then show ?thesis by simp
      next
        case False
        then obtain v where v: "v \<in> set r1" "equivalent lt a v"
          by (meson filter_False)
        have vx: "lt v x" using r1x v(1) by blast
        have "\<not> equivalent lt a u" if u: "u \<in> set (x # l2)" for u
        proof
          assume au: "equivalent lt a u"
          have "u = x \<or> u \<in> set l2" using u by simp
          then have ux: "\<not> lt u x" using l2x swo_irrefl[OF swo, of x] by blast
          have vu: "lt v u" by (rule swo_less_not_less_trans[OF swo vx ux])
          have "\<not> lt v u"
            using swo_incomp_trans[OF swo, of v a u] v(2) au unfolding equivalent_def by blast
          then show False using vu by blast
        qed
        then have "filter ?E (x # l2) = []" by (simp only: filter_empty_conv) blast
        then show ?thesis by simp
      qed
      have "filter ?E l1 @ filter ?E r1 @ filter ?E (x # l2) @ filter ?E r2 =
            filter ?E l1 @ (filter ?E r1 @ filter ?E (x # l2)) @ filter ?E r2"
        by (simp only: append_assoc)
      also have "\<dots> = filter ?E l1 @ (filter ?E (x # l2) @ filter ?E r1) @ filter ?E r2"
        by (simp only: comm)
      also have "\<dots> = filter ?E l1 @ filter ?E (x # l2) @ filter ?E r1 @ filter ?E r2"
        by (simp only: append_assoc)
      finally show ?thesis unfolding lhs rhs .
    qed
    show ?thesis using asc stab by blast
  qed
qed


subsection \<open>Runs and their bottom-up merge\<close>

lemma concat_chop: "concat (chop n xs) = xs"
proof (induction n xs rule: chop.induct)
  case (1 n xs)
  show ?case
  proof (cases "n = 0 \<or> length xs \<le> n")
    case True
    then show ?thesis by (subst chop.simps) simp
  next
    case False
    then have "concat (chop n (drop n xs)) = drop n xs" by (rule "1.IH")
    then show ?thesis using False by (subst chop.simps) simp
  qed
qed

lemma mergePairs_sorted:
  "strict_weak_order lt \<Longrightarrow> \<forall>r\<in>set rs. ascending lt r \<Longrightarrow>
   (\<forall>r\<in>set (mergePairs lt rs). ascending lt r) \<and>
   (\<forall>a. filter (equivalent lt a) (concat (mergePairs lt rs)) = filter (equivalent lt a) (concat rs))"
proof (induction lt rs rule: mergePairs.induct)
  case (1 lt r1 r2 rs)
  have swo: "strict_weak_order lt" by (rule "1.prems"(1))
  have a1: "ascending lt r1" and a2: "ascending lt r2" and ars: "\<forall>r\<in>set rs. ascending lt r"
    using "1.prems"(2) by simp_all
  note m = rotationMerge_sorted[OF swo a1 a2]
  note IH = "1.IH"[OF swo ars]
  have "\<forall>r\<in>set (rotationMerge lt r1 r2 # mergePairs lt rs). ascending lt r"
    using m IH by simp
  moreover have "filter (equivalent lt a) (concat (rotationMerge lt r1 r2 # mergePairs lt rs)) =
        filter (equivalent lt a) (concat (r1 # r2 # rs))" for a
    using m IH by simp
  ultimately show ?case by simp
qed simp_all

lemma mset_mergePairs: "mset (concat (mergePairs lt rs)) = mset (concat rs)"
  by (induction lt rs rule: mergePairs.induct) (simp_all add: mset_rotationMerge)

lemma mset_mergeAll: "mset (mergeAll lt rs) = mset (concat rs)"
proof (induction lt rs rule: mergeAll.induct)
  case (1 lt rs)
  show ?case
  proof (cases "length rs \<le> 1")
    case True
    then show ?thesis by (subst mergeAll.simps) simp
  next
    case False
    then have "mset (mergeAll lt (mergePairs lt rs)) = mset (concat (mergePairs lt rs))"
      by (rule "1.IH")
    then show ?thesis using False by (subst mergeAll.simps) (simp add: mset_mergePairs)
  qed
qed

lemma mergeAll_sorted:
  assumes swo: "strict_weak_order lt"
  shows "\<forall>r\<in>set rs. ascending lt r \<Longrightarrow>
         ascending lt (mergeAll lt rs) \<and>
         (\<forall>a. filter (equivalent lt a) (mergeAll lt rs) = filter (equivalent lt a) (concat rs))"
proof (induction "length rs" arbitrary: rs rule: less_induct)
  case less
  show ?case
  proof (cases "length rs \<le> 1")
    case True
    have e: "mergeAll lt rs = concat rs" using True by (subst mergeAll.simps) simp
    have "rs = [] \<or> (\<exists>r. rs = [r])" using True by (cases rs) auto
    then have "ascending lt (concat rs)" using less.prems by auto
    then show ?thesis unfolding e by simp
  next
    case False
    have e: "mergeAll lt rs = mergeAll lt (mergePairs lt rs)"
      using False by (subst mergeAll.simps) simp
    have "length (mergePairs lt qs) \<le> length qs \<and> (1 < length qs \<longrightarrow> length (mergePairs lt qs) < length qs)"
      for qs :: "'a list list"
      by (induction lt qs rule: mergePairs.induct) auto
    then have len: "length (mergePairs lt rs) < length rs" using False by (simp add: not_le)
    note mp = mergePairs_sorted[OF swo less.prems]
    have asc: "\<forall>r\<in>set (mergePairs lt rs). ascending lt r" using mp by blast
    note IH = less.hyps[OF len asc]
    have "ascending lt (mergeAll lt (mergePairs lt rs))" using IH by blast
    moreover have "filter (equivalent lt a) (mergeAll lt (mergePairs lt rs)) = filter (equivalent lt a) (concat rs)" for a
    proof -
      have "filter (equivalent lt a) (mergeAll lt (mergePairs lt rs)) =
            filter (equivalent lt a) (concat (mergePairs lt rs))"
        using IH by blast
      also have "\<dots> = filter (equivalent lt a) (concat rs)" using mp by blast
      finally show ?thesis .
    qed
    ultimately show ?thesis unfolding e by blast
  qed
qed

subsection \<open>The stable sort\<close>

lemma mset_concat_map:
  "(\<And>r. mset (f r) = mset r) \<Longrightarrow> mset (concat (map f rs)) = mset (concat rs)"
  by (induction rs) simp_all

lemma filter_concat_map:
  "(\<And>r. filter P (f r) = filter P r) \<Longrightarrow> filter P (concat (map f rs)) = filter P (concat rs)"
  by (induction rs) simp_all

lemma mset_stableSort: "mset (stableSort lt xs) = mset xs"
proof -
  have "mset (stableSort lt xs) = mset (concat (map (insertionSort lt) (chop smallRange xs)))"
    unfolding stableSort_def by (rule mset_mergeAll)
  also have "\<dots> = mset (concat (chop smallRange xs))"
    by (rule mset_concat_map) (rule mset_insertionSort)
  finally show ?thesis by (simp only: concat_chop)
qed

lemma stableSort_sorted:
  assumes swo: "strict_weak_order lt"
  shows "ascending lt (stableSort lt xs)"
    and "filter (equivalent lt a) (stableSort lt xs) = filter (equivalent lt a) xs"
proof -
  let ?runs = "map (insertionSort lt) (chop smallRange xs)"
  have "\<forall>r\<in>set ?runs. ascending lt r"
    using ascending_insertionSort[OF swo] by auto
  note ma = mergeAll_sorted[OF swo this]
  show "ascending lt (stableSort lt xs)" unfolding stableSort_def using ma by blast
  have "filter (equivalent lt a) (stableSort lt xs) = filter (equivalent lt a) (concat ?runs)"
    unfolding stableSort_def using ma by blast
  also have "\<dots> = filter (equivalent lt a) (concat (chop smallRange xs))"
    by (rule filter_concat_map) (rule stable_insertionSort[OF swo])
  finally show "filter (equivalent lt a) (stableSort lt xs) = filter (equivalent lt a) xs"
    by (simp only: concat_chop)
qed

text \<open>
  Elements that pass a filter keep, among themselves, the order they have in the list.
\<close>

lemma sorted_wrt_filter_nth:
  "sorted_wrt R (filter P xs) \<Longrightarrow> i < j \<Longrightarrow> j < length xs \<Longrightarrow> P (xs ! i) \<Longrightarrow> P (xs ! j) \<Longrightarrow>
   R (xs ! i) (xs ! j)"
proof (induction xs arbitrary: i j)
  case Nil
  then show ?case by simp
next
  case (Cons x xs)
  show ?case
  proof (cases i)
    case 0
    then have px: "P x" using Cons.prems(4) by simp
    obtain j' where j: "j = Suc j'" using Cons.prems(2) by (cases j) auto
    have "xs ! j' \<in> set (filter P xs)" using Cons.prems(3,5) j by simp
    then show ?thesis using Cons.prems(1) px 0 j by simp
  next
    case (Suc i')
    obtain j' where j: "j = Suc j'" using Cons.prems(2) by (cases j) auto
    have "sorted_wrt R (filter P xs)" using Cons.prems(1) by (cases "P x") simp_all
    then have "R (xs ! i') (xs ! j')"
      using Cons.prems(2-5) Suc j by (intro Cons.IH) simp_all
    then show ?thesis using Suc j by simp
  qed
qed


lemma elems_SortStableFunc:
  assumes "valid h x"
  shows "elems (SortStableFunc lt h x) x = stableSort lt (elems h x)"
proof -
  have n: "len x = length (elems h x)" using length_elems[OF assms] by simp
  have e: "stableLessFunc (elems h x) (len x) lt = stableSort lt (elems h x)"
    unfolding n by (simp add: stableLessFunc_def)
  have "length (stableSort lt (elems h x)) = len x"
    using mset_eq_length[OF mset_stableSort[of lt "elems h x"]] n by simp
  then show ?thesis
    unfolding SortStableFunc_def e by (rule elems_store[OF assms])
qed

section \<open>Claim C4: \<open>search\<close> returns the least index at which a monotonic predicate holds\<close>

text \<open>
  Claim C4.  Let \<open>0 \<le> n\<close> and let \<open>f\<close> be monotonic on the indices \<open>0 .. n - 1\<close>, with
  threshold \<open>k\<close>: \<open>f\<close> is false at every index below \<open>k\<close> and true at every index from
  \<open>k\<close> on.  Then \<open>search n f\<close> terminates and returns \<open>k\<close>, which is the least index at
  which \<open>f\<close> is true when there is one, and \<open>n\<close> when \<open>f\<close> is false on every index.
\<close>

theorem search_least:
  assumes "0 \<le> n" "n \<le> maxInt" "0 \<le> k" "k \<le> n"
    and "\<forall>i. 0 \<le> i \<and> i < k \<longrightarrow> f i = Inr False"
    and "\<forall>i. k \<le> i \<and> i < n \<longrightarrow> f i = Inr True"
  shows "search n f = Some (Inr k) \<and>
         (k < n \<longrightarrow> f k = Inr True \<and> (\<forall>i. 0 \<le> i \<and> i < k \<longrightarrow> f i \<noteq> Inr True)) \<and>
         ((\<forall>i. 0 \<le> i \<and> i < n \<longrightarrow> f i = Inr False) \<longrightarrow> k = n)"
proof -
  have "search n f = Some (Inr k)"
    using assms by (intro search_threshold) simp_all
  moreover have "k < n \<longrightarrow> f k = Inr True \<and> (\<forall>i. 0 \<le> i \<and> i < k \<longrightarrow> f i \<noteq> Inr True)"
    using assms by simp
  moreover have "(\<forall>i. 0 \<le> i \<and> i < n \<longrightarrow> f i = Inr False) \<longrightarrow> k = n"
  proof (intro impI, rule ccontr)
    assume all: "\<forall>i. 0 \<le> i \<and> i < n \<longrightarrow> f i = Inr False" and "k \<noteq> n"
    with \<open>k \<le> n\<close> have "k < n" by linarith
    with \<open>0 \<le> k\<close> have "f k = Inr True" "f k = Inr False" using assms(6) all by simp_all
    then show False by simp
  qed
  ultimately show ?thesis by blast
qed

theorem search_least_witness:
  "search 4 (\<lambda>i. Inr (1 \<le> i)) = Some (Inr 1)"
  using search_least[of 4 1 "\<lambda>i. Inr (1 \<le> i)"] by (simp add: maxInt_def)

section \<open>Claim C3: the binary searches return the leftmost insertion point\<close>

text \<open>
  Claim C3, as stated, fails on a slice of floating-point numbers that holds NaN.  The
  slice \<open>[2, NaN, 3]\<close> has no inversion under \<open><\<close>; \<open>BinarySearch(2, [2, NaN, 3])\<close>
  probes index 1, finds \<open>NaN >= 2\<close> false, moves right and returns \<open>(2, false)\<close>, although
  the element at index 0 is not less than the target and equals it.
\<close>

theorem BinarySearch_leftmost_counterexample:
  "ascending (op_lt float64_ops) [Num 2, NaN, Num (3::int)] \<and>
   BinarySearch float64_ops (Num 2) [Num 2, NaN, Num (3::int)] = Some (Inr (2, False)) \<and>
   \<not> op_lt float64_ops ([Num 2, NaN, Num (3::int)] ! 0) (Num 2) \<and>
   equivalent (op_lt float64_ops) ([Num 2, NaN, Num (3::int)] ! 0) (Num 2)"
proof -
  have "BinarySearch float64_ops (Num 2) [Num 2, NaN, Num (3::int)] = Some (Inr (2, False))"
    unfolding BinarySearch_def search_def search_probes_def
    apply (subst search_loop.simps, simp add: midpoint_def wrap_def index_def)
    apply (subst search_loop.simps, simp add: midpoint_def wrap_def index_def)
    apply (subst search_loop.simps, simp add: midpoint_def wrap_def index_def)
    done
  then show ?thesis by (simp add: ascending_def equivalent_def)
qed

text \<open>
  Claim C3, amended.  Let the elements of the slice and the target be totally ordered by
  the operators of the element type (no NaN among them), and let the slice be ascending.
  Then \<open>BinarySearch\<close> terminates without panic and returns \<open>(pos, found)\<close>, where \<open>pos\<close>
  is the least index whose element is not less than the target (the length of the slice
  if there is none; it is the number of leading elements less than the target) and
  \<open>found\<close> holds exactly when \<open>pos\<close> is inside the slice and the element there is
  equivalent to the target.  On a run of duplicates equal to the target, \<open>pos\<close> is thus
  the leftmost index of the run.  The same holds of \<open>BinarySearchFunc\<close> on a slice
  ascending under \<open>cmp\<close>, when \<open>cmp\<close> is a three-way comparison: its "negative" is a
  strict weak ordering, and it is positive exactly when it is negative on the swapped
  arguments.
\<close>

theorem BinarySearch_leftmost:
  fixes space :: "'a list" and target :: 'a
    and space' :: "'b list" and target' :: 'b
  assumes "int (length space) \<le> maxInt"
    and "totally_ordered ops (insert target (set space))"
    and "ascending (op_lt ops) space"
    and "int (length space') \<le> maxInt" and "three_way c"
    and "ascending (\<lambda>a b. c a b < 0) space'"
  shows "(\<exists>pos found.
            BinarySearch ops target space = Some (Inr (int pos, found)) \<and>
            pos = length (takeWhile (\<lambda>v. op_lt ops v target) space) \<and>
            pos \<le> length space \<and>
            (\<forall>i<pos. op_lt ops (space ! i) target) \<and>
            (pos < length space \<longrightarrow> \<not> op_lt ops (space ! pos) target) \<and>
            (found \<longleftrightarrow> pos < length space \<and> equivalent (op_lt ops) (space ! pos) target)) \<and>
         (\<exists>pos found.
            BinarySearchFunc c target' space' = Some (Inr (int pos, found)) \<and>
            pos = length (takeWhile (\<lambda>v. c v target' < 0) space') \<and>
            pos \<le> length space' \<and>
            (\<forall>i<pos. c (space' ! i) target' < 0) \<and>
            (pos < length space' \<longrightarrow> \<not> c (space' ! pos) target' < 0) \<and>
            (found \<longleftrightarrow> pos < length space' \<and> equivalent (\<lambda>a b. c a b < 0) (space' ! pos) target'))"
proof (rule conjI)
  define pos where "pos = length (takeWhile (\<lambda>v. op_lt ops v target) space)"
  note bs = BinarySearch_sorted[OF assms(1,2,3), folded pos_def]
  have "pos < length space \<longrightarrow> \<not> op_lt ops (space ! pos) target" using bs(4) by simp
  then show "\<exists>pos found.
            BinarySearch ops target space = Some (Inr (int pos, found)) \<and>
            pos = length (takeWhile (\<lambda>v. op_lt ops v target) space) \<and>
            pos \<le> length space \<and>
            (\<forall>i<pos. op_lt ops (space ! i) target) \<and>
            (pos < length space \<longrightarrow> \<not> op_lt ops (space ! pos) target) \<and>
            (found \<longleftrightarrow> pos < length space \<and> equivalent (op_lt ops) (space ! pos) target)"
    using bs(1,2,3) pos_def by blast
next
  define pos where "pos = length (takeWhile (\<lambda>v. c v target' < 0) space')"
  note bs = BinarySearchFunc_sorted[OF assms(4,5,6), of target', folded pos_def]
  have "pos < length space' \<longrightarrow> \<not> c (space' ! pos) target' < 0" using bs(4) by simp
  then show "\<exists>pos found.
            BinarySearchFunc c target' space' = Some (Inr (int pos, found)) \<and>
            pos = length (takeWhile (\<lambda>v. c v target' < 0) space') \<and>
            pos \<le> length space' \<and>
            (\<forall>i<pos. c (space' ! i) target' < 0) \<and>
            (pos < length space' \<longrightarrow> \<not> c (space' ! pos) target' < 0) \<and>
            (found \<longleftrightarrow> pos < length space' \<and> equivalent (\<lambda>a b. c a b < 0) (space' ! pos) target')"
    using bs(1,2,3) pos_def by blast
qed

text \<open>
  The example of the claim, \<open>BinarySearch(2, [1,2,2,3]) = (1, true)\<close>, on floating-point
  numbers, and with the comparison \<open>cmp\<close> on integers.
\<close>

theorem BinarySearch_leftmost_witness:
  "BinarySearch float64_ops (Num 2) [Num 1, Num 2, Num 2, Num (3::int)] = Some (Inr (1, True)) \<and>
   BinarySearchFunc (cmp native) (2::int) [1, 2, 2, 3] = Some (Inr (1, True))"
proof -
  have "totally_ordered (float64_ops :: int float64 ordered) (Num ` UNIV)"
    by (rule totally_ordered_float64)
  then have h0: "totally_ordered float64_ops (insert (Num 2) (set [Num 1, Num 2, Num 2, Num (3::int)]))"
    by (rule totally_ordered_subset) auto
  have h1: "int (length [Num 1, Num 2, Num 2, Num (3::int)]) \<le> maxInt" by (simp add: maxInt_def)
  have h2: "ascending (op_lt float64_ops) [Num 1, Num 2, Num 2, Num (3::int)]" by (simp add: ascending_def)
  have h3: "int (length [1, 2, 2, 3::int]) \<le> maxInt" by (simp add: maxInt_def)
  have h4: "three_way (cmp (native :: int ordered))" by (rule three_way_cmp)
  have h5: "cmp native a b < 0 \<longleftrightarrow> a < b" for a b :: int by (simp add: cmp_def)
  have h6: "ascending (\<lambda>a b. cmp native a b < 0) [1, 2, 2, 3::int]" by (simp add: ascending_def h5)
  show ?thesis
    using BinarySearch_leftmost[OF h1 h0 h2 h3 h4 h6, of 2]
    by (auto simp: h5 equivalent_def)
qed

section \<open>Claim C10: the searches stay inside the slice\<close>

text \<open>
  Claim C10.  \<open>search n f\<close> terminates and calls \<open>f\<close> only at indices \<open>h\<close> with
  \<open>0 \<le> h < n\<close>, for any \<open>f\<close>, monotonic or not; it does not call \<open>f\<close> at all when
  \<open>n \<le> 0\<close>.  Hence \<open>BinarySearch\<close> and \<open>BinarySearchFunc\<close> never panic with an index
  out of range, whatever the element type, the slice (sorted or not) and the target.
\<close>

theorem search_probes_in_range:
  assumes "n \<le> maxInt" and "int (length space) \<le> maxInt" and "int (length space') \<le> maxInt"
  shows "(\<exists>ps r. search_probes n f = Some (ps, r) \<and> (\<forall>h\<in>set ps. 0 \<le> h \<and> h < n)) \<and>
         (n \<le> 0 \<longrightarrow> search_probes n f = Some ([], Inr 0)) \<and>
         (\<exists>pos found. BinarySearch ops target space = Some (Inr (pos, found))) \<and>
         (\<exists>pos found. BinarySearchFunc c target' space' = Some (Inr (pos, found)))"
  using search_probes_range[OF assms(1), of f] search_probes_empty[of n f]
    BinarySearch_no_panic[OF assms(2), of ops target] BinarySearchFunc_no_panic[OF assms(3), of c target']
  by blast

text \<open>
  A witness on unsorted slices, one of them with NaN, and with a predicate that is not
  monotonic.
\<close>

theorem search_probes_in_range_witness:
  "(\<exists>ps r. search_probes 3 (\<lambda>i. Inr (i = 1)) = Some (ps, r) \<and> (\<forall>h\<in>set ps. 0 \<le> h \<and> h < 3)) \<and>
   (\<exists>pos found. BinarySearch float64_ops (Num 2) [Num 3, NaN, Num (2::int)] = Some (Inr (pos, found))) \<and>
   (\<exists>pos found. BinarySearchFunc (\<lambda>a b. a - b) (2::int) [3, 1, 2] = Some (Inr (pos, found)))"
proof -
  have h1: "(3::int) \<le> maxInt" by (simp add: maxInt_def)
  have h2: "int (length [Num 3, NaN, Num (2::int)]) \<le> maxInt" by (simp add: maxInt_def)
  have h3: "int (length [3, 1, 2::int]) \<le> maxInt" by (simp add: maxInt_def)
  show ?thesis
    using search_probes_in_range[OF h1 h2 h3, of "\<lambda>i. Inr (i = 1)" float64_ops "Num 2" "\<lambda>a b. a - b" 2]
    by blast
qed

section \<open>Claim C6: \<open>IsSorted\<close> and \<open>IsSortedFunc\<close> decide ascending order\<close>




section \<open>Claim C7: the \<open>Key\<close> adapter is consistent with its less-than\<close>




section \<open>Claim C1: \<open>Sort\<close> and \<open>SortFunc\<close> leave a sorted permutation\<close>

text \<open>
  Claim C1, as stated, fails for \<open>Sort\<close> on a slice of floating-point numbers that holds
  NaN: no comparison with NaN is true, so \<open>Sort\<close> leaves \<open>[2, NaN, 1]\<close> as it is,
  and the result has the inversion \<open>S[2] < S[0]\<close>.
\<close>

theorem Sort_sorted_permutation_counterexample:
  "elems (Sort float64_ops [[Num 2, NaN, Num (1::int)]] (Slice 0 0 3)) (Slice 0 0 3) =
     [Num 2, NaN, Num 1] \<and>
   op_lt float64_ops
     (elems (Sort float64_ops [[Num 2, NaN, Num (1::int)]] (Slice 0 0 3)) (Slice 0 0 3) ! 2)
     (elems (Sort float64_ops [[Num 2, NaN, Num (1::int)]] (Slice 0 0 3)) (Slice 0 0 3) ! 0)"
  by code_simp

text \<open>
  Claim C1, amended.  For every slice \<open>S\<close> in memory, after \<open>SortFunc(less, S)\<close> and
  after \<open>Sort(S)\<close> the slice holds a permutation of its contents before the call (same
  length, same multiset), whatever \<open>less\<close> and the elements are.  When \<open>less\<close> is a strict
  weak ordering, the slice has no inversion after \<open>SortFunc(less, S)\<close>: for all indices
  \<open>i < j\<close>, not \<open>less(S[j], S[i])\<close>, and \<open>IsSortedFunc\<close> returns true on it.  When the
  elements of \<open>S\<close> are totally ordered by the operators of the element type (no NaN among
  them), the slice has no inversion after \<open>Sort(S)\<close>, and \<open>IsSorted\<close> returns true on it.
\<close>

theorem Sort_sorted_permutation:
  assumes "valid h S"
  shows "mset (elems (SortFunc lt h S) S) = mset (elems h S) \<and>
         length (elems (SortFunc lt h S) S) = len S \<and>
         mset (elems (Sort ops h S) S) = mset (elems h S) \<and>
         length (elems (Sort ops h S) S) = len S \<and>
         (strict_weak_order lt \<longrightarrow>
            (\<forall>i j. i < j \<and> j < len S \<longrightarrow>
               \<not> lt (elems (SortFunc lt h S) S ! j) (elems (SortFunc lt h S) S ! i)) \<and>
            IsSortedFunc lt (elems (SortFunc lt h S) S) = Inr True) \<and>
         (totally_ordered ops (set (elems h S)) \<longrightarrow>
            (\<forall>i j. i < j \<and> j < len S \<longrightarrow>
               \<not> op_lt ops (elems (Sort ops h S) S ! j) (elems (Sort ops h S) S ! i)) \<and>
            IsSorted ops (elems (Sort ops h S) S) = Inr True)"
proof -
  let ?n = "bits_Len (len S)"
  let ?r = "pdq lt ?n (elems h S)"
  let ?r' = "pdq (op_lt ops) ?n (elems h S)"
  have l: "length (elems h S) = len S" by (rule length_elems[OF assms])
  have m: "mset ?r = mset (elems h S)" by (rule mset_pdq)
  have m': "mset ?r' = mset (elems h S)" by (rule mset_pdq)
  have n: "length ?r = len S" using mset_eq_length[OF m] l by simp
  have n': "length ?r' = len S" using mset_eq_length[OF m'] l by simp
  have a: "(\<forall>i j. i < j \<and> j < len S \<longrightarrow> \<not> lt (?r ! j) (?r ! i)) \<and> IsSortedFunc lt ?r = Inr True"
    if swo: "strict_weak_order lt"
  proof -
    have asc: "ascending lt ?r" by (rule ascending_pdq[OF swo])
    then have "\<forall>i j. i < j \<and> j < length ?r \<longrightarrow> \<not> lt (?r ! j) (?r ! i)"
      by (simp only: ascending_iff_nth)
    moreover have "IsSortedFunc lt ?r = Inr True"
      using asc by (simp only: IsSortedFunc_ascending[OF swo])
    ultimately show ?thesis unfolding n by blast
  qed
  have a': "(\<forall>i j. i < j \<and> j < len S \<longrightarrow> \<not> op_lt ops (?r' ! j) (?r' ! i)) \<and> IsSorted ops ?r' = Inr True"
    if tot: "totally_ordered ops (set (elems h S))"
  proof -
    have swo: "strict_weak_order_on (op_lt ops) (set (elems h S))"
      using tot by (simp add: totally_ordered_def)
    have asc: "ascending (op_lt ops) ?r'" by (rule ascending_pdq_on[OF swo subset_refl])
    then have "\<forall>i j. i < j \<and> j < length ?r' \<longrightarrow> \<not> op_lt ops (?r' ! j) (?r' ! i)"
      by (simp only: ascending_iff_nth)
    moreover have "totally_ordered ops (set ?r')" using tot by (simp only: set_pdq)
    then have "IsSorted ops ?r' = Inr True"
      using asc by (simp only: IsSorted_ascending)
    ultimately show ?thesis unfolding n' by blast
  qed
  show ?thesis
    unfolding elems_SortFunc[OF assms] elems_Sort[OF assms]
    using m m' n n' a a' by blast
qed

text \<open>
  A witness: a window of fourteen integers inside an array of sixteen, sorted descending
  by \<open>SortFunc\<close> and ascending by \<open>Sort\<close>.
\<close>

theorem Sort_sorted_permutation_witness:
  "valid [[7, 5, 3, 9, 1, 7, 2, 8, 4, 6, 0, 11, 13, 12, 10, 7 :: int]] (Slice 0 1 14) \<and>
   strict_weak_order (\<lambda>a b :: int. b < a) \<and>
   totally_ordered native (set (elems [[7, 5, 3, 9, 1, 7, 2, 8, 4, 6, 0, 11, 13, 12, 10, 7 :: int]] (Slice 0 1 14))) \<and>
   SortFunc (\<lambda>a b. b < a) [[7, 5, 3, 9, 1, 7, 2, 8, 4, 6, 0, 11, 13, 12, 10, 7 :: int]] (Slice 0 1 14) =
     [[7, 13, 12, 11, 10, 9, 8, 7, 6, 5, 4, 3, 2, 1, 0, 7]] \<and>
   Sort native [[7, 5, 3, 9, 1, 7, 2, 8, 4, 6, 0, 11, 13, 12, 10, 7 :: int]] (Slice 0 1 14) =
     [[7, 0, 1, 2, 3, 4, 5, 6, 7, 8, 9, 10, 11, 12, 13, 7]] \<and>
   IsSortedFunc (\<lambda>a b. b < a) [13, 12, 11, 10, 9, 8, 7, 6, 5, 4, 3, 2, 1, 0 :: int] = Inr True \<and>
   IsSorted native [0, 1, 2, 3, 4, 5, 6, 7, 8, 9, 10, 11, 12, 13 :: int] = Inr True"
proof -
  let ?h = "[[7, 5, 3, 9, 1, 7, 2, 8, 4, 6, 0, 11, 13, 12, 10, 7 :: int]]"
  let ?S = "Slice 0 1 14"
  have v: "valid ?h ?S" by simp
  have swo: "strict_weak_order (\<lambda>a b :: int. b < a)"
    unfolding strict_weak_order_def by auto
  have tot: "totally_ordered native (set (elems ?h ?S))" by (rule totally_ordered_native)
  have s1: "SortFunc (\<lambda>a b. b < a) ?h ?S = [[7, 13, 12, 11, 10, 9, 8, 7, 6, 5, 4, 3, 2, 1, 0, 7]]"
    by code_simp
  have s2: "Sort native ?h ?S = [[7, 0, 1, 2, 3, 4, 5, 6, 7, 8, 9, 10, 11, 12, 13, 7]]"
    by code_simp
  have e1: "elems [[7, 13, 12, 11, 10, 9, 8, 7, 6, 5, 4, 3, 2, 1, 0, 7 :: int]] ?S =
            [13, 12, 11, 10, 9, 8, 7, 6, 5, 4, 3, 2, 1, 0]"
    by simp
  have e2: "elems [[7, 0, 1, 2, 3, 4, 5, 6, 7, 8, 9, 10, 11, 12, 13, 7 :: int]] ?S =
            [0, 1, 2, 3, 4, 5, 6, 7, 8, 9, 10, 11, 12, 13]"
    by simp
  note th = Sort_sorted_permutation[OF v, of "\<lambda>a b. b < a" native]
  have t1: "IsSortedFunc (\<lambda>a b. b < a) [13, 12, 11, 10, 9, 8, 7, 6, 5, 4, 3, 2, 1, 0 :: int] = Inr True"
    using th swo unfolding s1 e1 by blast
  have t2: "IsSorted native [0, 1, 2, 3, 4, 5, 6, 7, 8, 9, 10, 11, 12, 13 :: int] = Inr True"
    using th tot unfolding s2 e2 by blast
  show ?thesis using v swo tot s1 s2 t1 t2 by blast
qed

section \<open>Claim C5: \<open>Sorted\<close> and \<open>SortedFunc\<close> sort a new copy\<close>




section \<open>Claim C2: \<open>SortStableFunc\<close> is a stable sort\<close>

text \<open>
  Claim C2.  For every slice \<open>x\<close> in memory and every comparator \<open>less\<close> that is a strict
  weak ordering, after \<open>SortStableFunc(less, x)\<close> the slice is a permutation of its
  contents before the call and is sorted ascending under \<open>less\<close>, and the elements of
  each equivalence class of \<open>less\<close> are in the order they had before the call: the
  subsequence of the elements equivalent to a value \<open>a\<close> is the same before and after.
  So, whatever relation \<open>R\<close> holds between every element of the slice before the call
  and every later one (such as "has the smaller original index"), it holds between the
  elements at any two positions \<open>i < j\<close> of the result that are equivalent under \<open>less\<close>.
\<close>

theorem SortStableFunc_stable:
  assumes "valid h x" and "strict_weak_order lt"
  shows "(\<forall>i j. i < j \<and> j < len x \<longrightarrow>
            \<not> lt (elems (SortStableFunc lt h x) x ! j) (elems (SortStableFunc lt h x) x ! i)) \<and>
         mset (elems (SortStableFunc lt h x) x) = mset (elems h x) \<and>
         length (elems (SortStableFunc lt h x) x) = len x \<and>
         (\<forall>a. filter (equivalent lt a) (elems (SortStableFunc lt h x) x) =
              filter (equivalent lt a) (elems h x)) \<and>
         (\<forall>R. sorted_wrt R (elems h x) \<longrightarrow>
            (\<forall>i j. i < j \<and> j < len x \<and>
                 equivalent lt (elems (SortStableFunc lt h x) x ! i) (elems (SortStableFunc lt h x) x ! j) \<longrightarrow>
               R (elems (SortStableFunc lt h x) x ! i) (elems (SortStableFunc lt h x) x ! j)))"
proof -
  let ?r = "stableSort lt (elems h x)"
  note swo = assms(2)
  have l: "length (elems h x) = len x" by (rule length_elems[OF assms(1)])
  have m: "mset ?r = mset (elems h x)" by (rule mset_stableSort)
  have n: "length ?r = len x" using mset_eq_length[OF m] l by simp
  have "ascending lt ?r" by (rule stableSort_sorted(1)[OF swo])
  then have "\<forall>i j. i < j \<and> j < length ?r \<longrightarrow> \<not> lt (?r ! j) (?r ! i)"
    by (simp only: ascending_iff_nth)
  then have asc: "\<forall>i j. i < j \<and> j < len x \<longrightarrow> \<not> lt (?r ! j) (?r ! i)"
    unfolding n .
  have st: "filter (equivalent lt a) ?r = filter (equivalent lt a) (elems h x)" for a
    by (rule stableSort_sorted(2)[OF swo])
  have pos: "R (?r ! i) (?r ! j)"
    if R: "sorted_wrt R (elems h x)" and ij: "i < j \<and> j < len x \<and> equivalent lt (?r ! i) (?r ! j)"
    for R i j
  proof -
    let ?E = "equivalent lt (?r ! i)"
    have "sorted_wrt R (filter ?E (elems h x))" using R by (rule sorted_wrt_filter)
    then have s: "sorted_wrt R (filter ?E ?r)" by (simp only: st)
    have ei: "?E (?r ! i)" using swo_irrefl[OF swo] by (simp add: equivalent_def)
    show ?thesis
      using sorted_wrt_filter_nth[OF s, of i j] ij ei unfolding n by blast
  qed
  show ?thesis
    unfolding elems_SortStableFunc[OF assms(1)]
    using asc m n st pos by blast
qed

text \<open>
  A witness: pairs sorted by their first field only, in a window of thirteen pairs
  inside an array of fifteen; the second field is the original index.  The pairs that
  share the key 1 are in their original order in the result.
\<close>

theorem SortStableFunc_stable_witness:
  "valid [[(3, 0), (1, 1), (0, 2), (3, 3), (1, 4), (2, 5), (2, 6), (3, 7), (0, 8), (1, 9),
           (2, 10), (3, 11), (0, 12), (1, 13), (2, 14 :: int) :: int \<times> int]] (Slice 0 1 13) \<and>
   strict_weak_order (\<lambda>a b :: int \<times> int. fst a < fst b) \<and>
   SortStableFunc (\<lambda>a b. fst a < fst b)
     [[(3, 0), (1, 1), (0, 2), (3, 3), (1, 4), (2, 5), (2, 6), (3, 7), (0, 8), (1, 9),
       (2, 10), (3, 11), (0, 12), (1, 13), (2, 14 :: int) :: int \<times> int]] (Slice 0 1 13) =
     [[(3, 0), (0, 2), (0, 8), (0, 12), (1, 1), (1, 4), (1, 9), (1, 13), (2, 5), (2, 6),
       (2, 10), (3, 3), (3, 7), (3, 11), (2, 14)]] \<and>
   filter (equivalent (\<lambda>a b :: int \<times> int. fst a < fst b) (1, 0))
     [(0, 2), (0, 8), (0, 12), (1, 1), (1, 4), (1, 9), (1, 13), (2, 5), (2, 6),
      (2, 10), (3, 3), (3, 7), (3, 11 :: int)] =
     [(1, 1), (1, 4), (1, 9), (1, 13)] \<and>
   SortStableFunc (\<lambda>a b. fst a < fst b) [[(1, 0), (1, 1), (0, 2 :: int) :: int \<times> int]] (Slice 0 0 3) =
     [[(0, 2), (1, 0), (1, 1)]]"
proof -
  let ?lt = "\<lambda>a b :: int \<times> int. fst a < fst b"
  let ?h = "[[(3, 0), (1, 1), (0, 2), (3, 3), (1, 4), (2, 5), (2, 6), (3, 7), (0, 8), (1, 9),
           (2, 10), (3, 11), (0, 12), (1, 13), (2, 14 :: int) :: int \<times> int]]"
  let ?S = "Slice 0 1 13"
  have v: "valid ?h ?S" by simp
  have swo: "strict_weak_order ?lt"
    unfolding strict_weak_order_def by auto
  have s1: "SortStableFunc ?lt ?h ?S =
     [[(3, 0), (0, 2), (0, 8), (0, 12), (1, 1), (1, 4), (1, 9), (1, 13), (2, 5), (2, 6),
       (2, 10), (3, 3), (3, 7), (3, 11), (2, 14)]]"
    by code_simp
  have s2: "SortStableFunc ?lt [[(1, 0), (1, 1), (0, 2 :: int) :: int \<times> int]] (Slice 0 0 3) =
     [[(0, 2), (1, 0), (1, 1)]]"
    by code_simp
  have e1: "elems [[(3, 0), (0, 2), (0, 8), (0, 12), (1, 1), (1, 4), (1, 9), (1, 13), (2, 5), (2, 6),
       (2, 10), (3, 3), (3, 7), (3, 11), (2, 14 :: int) :: int \<times> int]] ?S =
     [(0, 2), (0, 8), (0, 12), (1, 1), (1, 4), (1, 9), (1, 13), (2, 5), (2, 6),
      (2, 10), (3, 3), (3, 7), (3, 11)]"
    by simp
  have e0: "filter (equivalent ?lt (1, 0)) (elems ?h ?S) = [(1, 1), (1, 4), (1, 9), (1, 13)]"
    by (simp add: equivalent_def)
  from SortStableFunc_stable[OF v swo]
  have "filter (equivalent ?lt (1, 0)) (elems (SortStableFunc ?lt ?h ?S) ?S) =
        filter (equivalent ?lt (1, 0)) (elems ?h ?S)"
    by blast
  then have t: "filter (equivalent ?lt (1, 0))
     [(0, 2), (0, 8), (0, 12), (1, 1), (1, 4), (1, 9), (1, 13), (2, 5), (2, 6),
      (2, 10), (3, 3), (3, 7), (3, 11 :: int)] = [(1, 1), (1, 4), (1, 9), (1, 13)]"
    unfolding s1 e1 e0 .
  show ?thesis using v swo s1 s2 t by blast
qed

end
